theory Spec2Isabelle
  imports
    Complex_Main
    "HOL-Library.Char_ord"
    "HOL-Library.List_Lexorder"
    "HOL-Library.Multiset"
begin

section \<open>JavaScript values, as far as the server looks at them\<close>

text \<open>
  The signalling server is the first 175 lines of \<^verbatim>\<open>index.js\<close>. It reads the fields
  \<^verbatim>\<open>type\<close>, \<^verbatim>\<open>payload\<close>, \<^verbatim>\<open>sessionCode\<close>, \<^verbatim>\<open>participantName\<close>, \<^verbatim>\<open>to\<close> and
  \<^verbatim>\<open>signal\<close> of what \<^verbatim>\<open>JSON.parse\<close> returns, uses two of them as property keys and
  hands the others on. A value is therefore modelled by its shape: a number by the
  string JavaScript renders it as (all the server can do with a number is use it as a
  key or pass it on), an object by its own properties in order. Arrays are left out.
\<close>

datatype jsval =
    JUndefined
  | JNull
  | JBool bool
  | JNum string
  | JStr string
  | JObj "(string \<times> jsval) list"

datatype error = SyntaxError | TypeError

text \<open>
  \<^verbatim>\<open>ToString\<close> (and \<^verbatim>\<open>ToPropertyKey\<close>, which agrees with it on these values).
  An object made by \<^verbatim>\<open>JSON.parse\<close> answers \<^verbatim>\<open>[object Object]\<close> through the inherited
  \<^verbatim>\<open>toString\<close>; when it has an own property of that name (never callable, coming from
  JSON) the conversion throws a TypeError, here \<open>None\<close>.
\<close>

fun ToString :: "jsval \<Rightarrow> string option" where
  "ToString JUndefined = Some ''undefined''"
| "ToString JNull = Some ''null''"
| "ToString (JBool b) = Some (if b then ''true'' else ''false'')"
| "ToString (JNum s) = Some s"
| "ToString (JStr s) = Some s"
| "ToString (JObj kvs) =
     (if ''toString'' \<in> set (map fst kvs) then None else Some ''[object Object]'')"

text \<open>
  Reading a property \<open>v.p\<close>, for the six names above (none of them is on a prototype):
  a TypeError (\<open>None\<close>) on \<^verbatim>\<open>undefined\<close> and \<^verbatim>\<open>null\<close>, the own property of an
  object, \<^verbatim>\<open>undefined\<close> otherwise.
\<close>

fun js_get_prop :: "jsval \<Rightarrow> string \<Rightarrow> jsval option" where
  "js_get_prop JUndefined p = None"
| "js_get_prop JNull p = None"
| "js_get_prop (JObj kvs) p = Some (case map_of kvs p of Some v \<Rightarrow> v | None \<Rightarrow> JUndefined)"
| "js_get_prop v p = Some JUndefined"

section \<open>Objects used as dictionaries\<close>

text \<open>
  \<^verbatim>\<open>sessions\<close>, \<^verbatim>\<open>participants\<close> and \<^verbatim>\<open>links\<close> are plain objects. The order of
  \<^verbatim>\<open>Object.keys\<close>, \<^verbatim>\<open>Object.values\<close> and \<^verbatim>\<open>for ... in\<close> matters to the code, so an
  object is the list of its own properties in enumeration order: array indices
  (canonical decimal strings below \<open>2^32 - 1\<close>) first, ascending; then the other keys
  in the order they were created. Writing an existing key keeps its place.
\<close>

type_synonym 'v jsobj = "(string \<times> 'v) list"

definition is_digit :: "char \<Rightarrow> bool" where
  "is_digit c = (c \<in> set ''0123456789'')"

definition index_value :: "string \<Rightarrow> nat" where
  "index_value s = foldl (\<lambda>n c. 10 * n + (of_char c - 48)) 0 s"

definition is_array_index :: "string \<Rightarrow> bool" where
  "is_array_index s =
     (s \<noteq> [] \<and> list_all is_digit s \<and> (length s = 1 \<or> hd s \<noteq> CHR ''0'')
      \<and> index_value s < 2 ^ 32 - 1)"

definition js_get :: "'v jsobj \<Rightarrow> string \<Rightarrow> 'v option" where
  "js_get obj k = map_of obj k"

definition js_keys :: "'v jsobj \<Rightarrow> string list" where
  "js_keys obj = map fst obj"

definition js_values :: "'v jsobj \<Rightarrow> 'v list" where
  "js_values obj = map snd obj"

fun js_insert :: "string \<Rightarrow> 'v \<Rightarrow> 'v jsobj \<Rightarrow> 'v jsobj" where
  "js_insert k v [] = [(k, v)]"
| "js_insert k v ((k', v') # kvs) =
     (if is_array_index k \<and> (\<not> is_array_index k' \<or> index_value k < index_value k')
      then (k, v) # (k', v') # kvs
      else (k', v') # js_insert k v kvs)"

definition js_set :: "'v jsobj \<Rightarrow> string \<Rightarrow> 'v \<Rightarrow> 'v jsobj" where
  "js_set obj k v =
     (if k \<in> set (js_keys obj)
      then map (\<lambda>(k', v'). if k' = k then (k', v) else (k', v')) obj
      else js_insert k v obj)"

definition js_delete :: "'v jsobj \<Rightarrow> string \<Rightarrow> 'v jsobj" where
  "js_delete obj k = filter (\<lambda>(k', v'). k' \<noteq> k) obj"

text \<open>
  \<^verbatim>\<open>sessions\<close> is created as \<^verbatim>\<open>{}\<close>, so \<^verbatim>\<open>sessions[code]\<close> also finds what
  \<^verbatim>\<open>Object.prototype\<close> has: twelve names, each a function or an object, hence truthy
  and without a \<^verbatim>\<open>participants\<close> property.
\<close>

definition object_prototype_keys :: "string list" where
  "object_prototype_keys =
     [''constructor'', ''__defineGetter__'', ''__defineSetter__'', ''hasOwnProperty'',
      ''__lookupGetter__'', ''__lookupSetter__'', ''isPrototypeOf'',
      ''propertyIsEnumerable'', ''toString'', ''valueOf'', ''__proto__'',
      ''toLocaleString'']"

section \<open>The server's state\<close>

text \<open>
  A connection is known by \<^verbatim>\<open>ws.id\<close>, the UUID given to it on \<^verbatim>\<open>connection\<close>; its
  other fields are \<^verbatim>\<open>ws.sessionCode\<close> (whatever the last join assigned, unset before)
  and \<^verbatim>\<open>readyState\<close>, which the transport changes. A participant entry holds a
  reference to the connection, here its id, so that a change of \<^verbatim>\<open>readyState\<close> is seen
  through every entry that refers to it.

  \<^verbatim>\<open>session.timer\<close> is the handle \<^verbatim>\<open>setInterval\<close> returned; handles are numbered.
  \<open>intervals\<close> are the interval timers that have not been cleared, each with the
  session code its callback closes over; \<open>timeouts\<close> are the pending \<^verbatim>\<open>setTimeout\<close>
  callbacks, each with its delay in milliseconds and the session code. Nothing in the
  source clears a timeout.
\<close>

datatype ready_state = CONNECTING | OPEN | CLOSING | CLOSED

record ws =
  sessionCode :: jsval
  readyState :: ready_state

record participant =
  name :: jsval
  socket :: string

record session =
  participants :: "participant jsobj"
  links :: "string jsobj"
  timer :: "nat option"

datatype outmsg =
    ParticipantListUpdate "jsval list"
  | Shuffle string jsval bool
  | ShuffleCountdown nat
  | WebrtcSignal string jsval

type_synonym send = "string \<times> outmsg"

record state =
  sessions :: "session jsobj"
  sockets :: "string \<Rightarrow> ws"
  intervals :: "(nat \<times> string) list"
  timeouts :: "(nat \<times> string) list"
  next_timer :: nat

definition init_state :: state where
  "init_state =
     \<lparr>sessions = [], sockets = (\<lambda>_. \<lparr>sessionCode = JUndefined, readyState = CONNECTING\<rparr>),
      intervals = [], timeouts = [], next_timer = 0\<rparr>"

section \<open>broadcastToSession\<close>

text \<open>Every \<^verbatim>\<open>socket.send\<close> the server makes is recorded: the socket and the message.\<close>

definition broadcastToSession :: "state \<Rightarrow> string \<Rightarrow> outmsg \<Rightarrow> send list" where
  "broadcastToSession st code message =
     (case js_get (sessions st) code of
        None \<Rightarrow> []
      | Some session \<Rightarrow>
          concat (map (\<lambda>p. if readyState (sockets st (socket p)) = OPEN
                           then [(socket p, message)] else [])
                      (js_values (participants session))))"

section \<open>performShuffle\<close>

text \<open>
  The Fisher-Yates loop \<^verbatim>\<open>for (let i = n - 1; i > 0; i--)\<close>. \<open>rnd k\<close> is what the
  \<open>k\<close>-th call of \<^verbatim>\<open>Math.random()\<close> returns in this run of the function, read as a
  real number; \<^verbatim>\<open>Math.random\<close> promises \<open>0 \<le> rnd k < 1\<close>.
\<close>

fun shuffle_loop :: "(nat \<Rightarrow> real) \<Rightarrow> nat \<Rightarrow> nat \<Rightarrow> string list \<Rightarrow> string list" where
  "shuffle_loop rnd k 0 participantIds = participantIds"
| "shuffle_loop rnd k (Suc i') participantIds =
     (let i = Suc i';
          j = nat \<lfloor>rnd k * real (i + 1)\<rfloor>
      in shuffle_loop rnd (Suc k) i'
           (participantIds[i := participantIds ! j, j := participantIds ! i]))"

definition build_links :: "string list \<Rightarrow> string jsobj" where
  "build_links participantIds =
     foldl (\<lambda>newLinks i.
              js_set newLinks (participantIds ! i)
                (participantIds ! ((i + 1) mod length participantIds)))
           [] [0..<length participantIds]"

definition polite_flag :: "string \<Rightarrow> string \<Rightarrow> bool" where
  "polite_flag fromId toId = (fromId > toId)"

text \<open>
  The \<^verbatim>\<open>forEach\<close> over \<^verbatim>\<open>Object.keys(newLinks)\<close>, as a walk over the entries of
  \<open>newLinks\<close>. \<^verbatim>\<open>session.participants[id]\<close> of an identity that is no participant is
  \<^verbatim>\<open>undefined\<close>, and reading its field a TypeError.
\<close>

fun notify :: "(string \<Rightarrow> ws) \<Rightarrow> participant jsobj \<Rightarrow> string jsobj \<Rightarrow> error + send list" where
  "notify socks ps [] = Inr []"
| "notify socks ps ((fromId, toId) # rest) =
     (case js_get ps fromId of
        None \<Rightarrow> Inl TypeError
      | Some pf \<Rightarrow>
         (case js_get ps toId of
            None \<Rightarrow> Inl TypeError
          | Some pt \<Rightarrow>
             (case notify socks ps rest of
                Inl e \<Rightarrow> Inl e
              | Inr out \<Rightarrow>
                  Inr ((if readyState (socks (socket pf)) = OPEN
                        then [(socket pf, Shuffle toId (name pt) (polite_flag fromId toId))]
                        else []) @ out))))"

definition performShuffle :: "(nat \<Rightarrow> real) \<Rightarrow> state \<Rightarrow> string \<Rightarrow> error + state \<times> send list" where
  "performShuffle rnd st code =
     (case js_get (sessions st) code of
        None \<Rightarrow> Inr (st, [])
      | Some session \<Rightarrow>
          let ids = js_keys (participants session);
              participantIds = shuffle_loop rnd 0 (length ids - 1) ids;
              newLinks = build_links participantIds
          in (case notify (sockets st) (participants session) newLinks of
                Inl e \<Rightarrow> Inl e
              | Inr out \<Rightarrow>
                  Inr (st\<lparr>sessions := js_set (sessions st) code (session\<lparr>links := newLinks\<rparr>)\<rparr>,
                       out)))"

section \<open>initiateShuffleCycle\<close>

definition clearInterval :: "nat option \<Rightarrow> (nat \<times> string) list \<Rightarrow> (nat \<times> string) list" where
  "clearInterval t ivs =
     (case t of None \<Rightarrow> ivs | Some h \<Rightarrow> filter (\<lambda>(h', c). h' \<noteq> h) ivs)"

definition countdown_duration :: nat where
  "countdown_duration = 10"

definition countdown_delay_ms :: nat where
  "countdown_delay_ms = 3000"

definition shuffle_period_ms :: nat where
  "shuffle_period_ms = 10000 * 60"

text \<open>
  Time is not measured: an interval is live or cleared, a timeout is pending or has
  run. The period of the interval is kept as a constant only; the delay of the
  timeout is recorded with it.

  \<^verbatim>\<open>session\<close> is a reference: after \<^verbatim>\<open>performShuffle(sessionCode)\<close> it is the same
  object with its links replaced, which the model reads back under the same key.
\<close>

definition initiateShuffleCycle :: "(nat \<Rightarrow> real) \<Rightarrow> state \<Rightarrow> string \<Rightarrow> error + state \<times> send list" where
  "initiateShuffleCycle rnd st code =
     (case js_get (sessions st) code of
        None \<Rightarrow> Inr (st, [])
      | Some session \<Rightarrow>
          let st1 = (case timer session of
                       None \<Rightarrow> st
                     | Some h \<Rightarrow>
                         st\<lparr>intervals := clearInterval (Some h) (intervals st),
                            sessions := js_set (sessions st) code (session\<lparr>timer := None\<rparr>)\<rparr>)
          in (case performShuffle rnd st1 code of
                Inl e \<Rightarrow> Inl e
              | Inr (st2, out) \<Rightarrow>
                 (case js_get (sessions st2) code of
                    None \<Rightarrow> Inr (st2, out)
                  | Some session2 \<Rightarrow>
                      if length (js_keys (participants session2)) > 2
                      then Inr (st2\<lparr>intervals := intervals st2 @ [(next_timer st2, code)],
                                    sessions := js_set (sessions st2) code
                                                  (session2\<lparr>timer := Some (next_timer st2)\<rparr>),
                                    next_timer := Suc (next_timer st2)\<rparr>,
                                out)
                      else Inr (st2, out))))"

section \<open>The message handler\<close>

text \<open>
  \<^verbatim>\<open>JSON.parse\<close> is library code: a message is given by what it makes of the text,
  a SyntaxError or a value. Nothing in the handler catches an exception, so a throw
  leaves the handler, and the result is the error alone.
\<close>

datatype raw_message = Unparseable | Parsed jsval

definition joinSession :: "(nat \<Rightarrow> real) \<Rightarrow> state \<Rightarrow> string \<Rightarrow> jsval \<Rightarrow> error + state \<times> send list" where
  "joinSession rnd st wsid payload =
     (case js_get_prop payload ''sessionCode'' of
        None \<Rightarrow> Inl TypeError
      | Some code \<Rightarrow>
     (case js_get_prop payload ''participantName'' of
        None \<Rightarrow> Inl TypeError
      | Some participantName \<Rightarrow>
     (case ToString code of
        None \<Rightarrow> Inl TypeError
      | Some key \<Rightarrow>
          if js_get (sessions st) key = None \<and> key \<in> set object_prototype_keys
          then Inl TypeError
          else
            let session = (case js_get (sessions st) key of
                             None \<Rightarrow> \<lparr>participants = [], links = [], timer = None\<rparr>
                           | Some s \<Rightarrow> s);
                session' = session\<lparr>participants :=
                             js_set (participants session) wsid
                               \<lparr>name = participantName, socket = wsid\<rparr>\<rparr>;
                st1 = st\<lparr>sessions := js_set (sessions st) key session',
                         sockets := (sockets st)(wsid := (sockets st wsid)\<lparr>sessionCode := code\<rparr>)\<rparr>
            in (case ToString participantName of
                  None \<Rightarrow> Inl TypeError
                | Some shown \<Rightarrow>
                    let participantList = map name (js_values (participants session'));
                        out1 = broadcastToSession st1 key (ParticipantListUpdate participantList)
                    in if length (js_keys (participants session')) \<ge> 2
                       then (case initiateShuffleCycle rnd st1 key of
                               Inl e \<Rightarrow> Inl e
                             | Inr (st2, out2) \<Rightarrow> Inr (st2, out1 @ out2))
                       else Inr (st1, out1)))))"

text \<open>
  \<^verbatim>\<open>sessions[ws.sessionCode]?.participants[to]?.socket\<close>: an absent session ends the
  chain before \<^verbatim>\<open>to\<close> is looked at; an inherited property of \<^verbatim>\<open>sessions\<close> has no
  \<^verbatim>\<open>participants\<close>, and indexing \<^verbatim>\<open>undefined\<close> throws. An inherited property of
  \<^verbatim>\<open>participants\<close> has no \<^verbatim>\<open>socket\<close>, as if the key were absent.
\<close>

definition webrtc_signal :: "state \<Rightarrow> string \<Rightarrow> jsval \<Rightarrow> error + state \<times> send list" where
  "webrtc_signal st wsid payload =
     (case js_get_prop payload ''to'' of
        None \<Rightarrow> Inl TypeError
      | Some to \<Rightarrow>
     (case js_get_prop payload ''signal'' of
        None \<Rightarrow> Inl TypeError
      | Some signal \<Rightarrow>
     (case ToString (sessionCode (sockets st wsid)) of
        None \<Rightarrow> Inl TypeError
      | Some key \<Rightarrow>
         (case js_get (sessions st) key of
            None \<Rightarrow> if key \<in> set object_prototype_keys then Inl TypeError else Inr (st, [])
          | Some session \<Rightarrow>
             (case ToString to of
                None \<Rightarrow> Inl TypeError
              | Some toKey \<Rightarrow>
                 (case js_get (participants session) toKey of
                    None \<Rightarrow> Inr (st, [])
                  | Some recipient \<Rightarrow>
                      Inr (st, [(socket recipient, WebrtcSignal wsid signal)])))))))"

definition on_message :: "(nat \<Rightarrow> real) \<Rightarrow> state \<Rightarrow> string \<Rightarrow> raw_message \<Rightarrow> error + state \<times> send list" where
  "on_message rnd st wsid message =
     (case message of
        Unparseable \<Rightarrow> Inl SyntaxError
      | Parsed data \<Rightarrow>
         (case js_get_prop data ''type'' of
            None \<Rightarrow> Inl TypeError
          | Some ty \<Rightarrow>
              if ty = JStr ''joinSession'' then
                (case js_get_prop data ''payload'' of
                   None \<Rightarrow> Inl TypeError
                 | Some payload \<Rightarrow> joinSession rnd st wsid payload)
              else if ty = JStr ''webrtc-signal'' then
                (case js_get_prop data ''payload'' of
                   None \<Rightarrow> Inl TypeError
                 | Some payload \<Rightarrow> webrtc_signal st wsid payload)
              else Inr (st, [])))"

section \<open>The close handler\<close>

text \<open>
  The \<^verbatim>\<open>for ... in\<close> loop stops at the first session, in enumeration order, that has
  the connection among its participants.
\<close>

definition on_close :: "(nat \<Rightarrow> real) \<Rightarrow> state \<Rightarrow> string \<Rightarrow> error + state \<times> send list" where
  "on_close rnd st wsid =
     (case find (\<lambda>(code, s). js_get (participants s) wsid \<noteq> None) (sessions st) of
        None \<Rightarrow> Inr (st, [])
      | Some (code, session) \<Rightarrow>
          let session' = session\<lparr>participants := js_delete (participants session) wsid\<rparr>;
              st1 = st\<lparr>sessions := js_set (sessions st) code session'\<rparr>
          in if length (js_keys (participants session')) = 0
             then Inr (st1\<lparr>intervals := clearInterval (timer session') (intervals st1),
                           sessions := js_delete (sessions st1) code\<rparr>, [])
             else
               let participantList = map name (js_values (participants session'));
                   out1 = broadcastToSession st1 code (ParticipantListUpdate participantList)
               in if length (js_keys (participants session')) > 1
                  then (case initiateShuffleCycle rnd st1 code of
                          Inl e \<Rightarrow> Inl e
                        | Inr (st2, out2) \<Rightarrow> Inr (st2, out1 @ out2))
                  else Inr (st1, out1))"

section \<open>Timer callbacks\<close>

text \<open>
  The interval callback broadcasts the countdown and schedules the shuffle; a cleared
  interval never runs. The timeout callback is \<^verbatim>\<open>performShuffle(sessionCode)\<close>.
\<close>

definition on_interval :: "state \<Rightarrow> nat \<Rightarrow> state \<times> send list" where
  "on_interval st h =
     (case map_of (intervals st) h of
        None \<Rightarrow> (st, [])
      | Some code \<Rightarrow>
          (st\<lparr>timeouts := timeouts st @ [(countdown_delay_ms, code)]\<rparr>,
           broadcastToSession st code (ShuffleCountdown countdown_duration)))"

definition on_timeout :: "(nat \<Rightarrow> real) \<Rightarrow> state \<Rightarrow> nat \<Rightarrow> error + state \<times> send list" where
  "on_timeout rnd st i =
     (if i < length (timeouts st)
      then performShuffle rnd
             (st\<lparr>timeouts := take i (timeouts st) @ drop (Suc i) (timeouts st)\<rparr>)
             (snd (timeouts st ! i))
      else Inr (st, []))"

section \<open>Events\<close>

text \<open>
  What the event loop can hand to the server: a new connection, a message on a
  connection, a connection that stops being open (the closing handshake has begun and
  no handler runs), the \<^verbatim>\<open>close\<close> event (the transport has set \<^verbatim>\<open>readyState\<close> to
  \<^verbatim>\<open>CLOSED\<close> by then), an interval timer firing, a pending timeout firing. An event
  that shuffles carries the values \<^verbatim>\<open>Math.random\<close> returns during it.
\<close>

datatype event =
    Connection string
  | Message string raw_message "nat \<Rightarrow> real"
  | Closing string
  | Close string "nat \<Rightarrow> real"
  | IntervalFires nat
  | TimeoutFires nat "nat \<Rightarrow> real"

definition set_readyState :: "state \<Rightarrow> string \<Rightarrow> ready_state \<Rightarrow> state" where
  "set_readyState st wsid r = st\<lparr>sockets := (sockets st)(wsid := (sockets st wsid)\<lparr>readyState := r\<rparr>)\<rparr>"

fun step :: "state \<Rightarrow> event \<Rightarrow> error + state \<times> send list" where
  "step st (Connection wsid) =
     Inr (st\<lparr>sockets := (sockets st)(wsid := \<lparr>sessionCode = JUndefined, readyState = OPEN\<rparr>)\<rparr>, [])"
| "step st (Message wsid message rnd) = on_message rnd st wsid message"
| "step st (Closing wsid) = Inr (set_readyState st wsid CLOSING, [])"
| "step st (Close wsid rnd) = on_close rnd (set_readyState st wsid CLOSED) wsid"
| "step st (IntervalFires h) = Inr (on_interval st h)"
| "step st (TimeoutFires i rnd) = on_timeout rnd st i"

fun run :: "state \<Rightarrow> event list \<Rightarrow> error + state \<times> send list" where
  "run st [] = Inr (st, [])"
| "run st (e # es) =
     (case step st e of
        Inl err \<Rightarrow> Inl err
      | Inr (st', out) \<Rightarrow>
         (case run st' es of
            Inl err \<Rightarrow> Inl err
          | Inr (st'', out') \<Rightarrow> Inr (st'', out @ out')))"

definition reachable :: "state \<Rightarrow> bool" where
  "reachable st = (\<exists>es out. run init_state es = Inr (st, out))"

section \<open>Predicates for stating the properties\<close>

text \<open>
  \<open>links_form_cycle lnk p\<close>: the links are exactly the steps of the cyclic sequence
  \<open>p\<close>, in which every identity occurs once: each element is linked to the next and
  the last to the first. \<open>links_upto p m\<close> is \<^verbatim>\<open>newLinks\<close> after \<open>m\<close> rounds of
  the loop that builds it.
\<close>

definition links_form_cycle :: "string jsobj \<Rightarrow> string list \<Rightarrow> bool" where
  "links_form_cycle lnk p =
     (distinct p \<and> length lnk = length p \<and> set (js_keys lnk) = set p
      \<and> list_all (\<lambda>i. js_get lnk (p ! i) = Some (p ! ((i + 1) mod length p))) [0..<length p])"

definition links_upto :: "string list \<Rightarrow> nat \<Rightarrow> string jsobj" where
  "links_upto p m =
     foldl (\<lambda>newLinks i. js_set newLinks (p ! i) (p ! ((i + 1) mod length p))) [] [0..<m]"

text \<open>
  The bookkeeping of interval timers. \<open>timers_ok X st\<close>: the keys of \<^verbatim>\<open>sessions\<close> and
  of every \<^verbatim>\<open>participants\<close> are distinct, as in any object; handles are distinct and
  older than the next one; every live interval is the \<^verbatim>\<open>timer\<close> of the session it
  closes over, and every \<^verbatim>\<open>timer\<close> is live; and a session outside \<open>X\<close> has a
  timer precisely when it has more than two participants. \<open>X\<close> holds the session
  whose membership a handler has just changed, before \<^verbatim>\<open>initiateShuffleCycle\<close> runs.
\<close>

definition session_ok :: "(nat \<times> string) list \<Rightarrow> string set \<Rightarrow> string \<Rightarrow> session \<Rightarrow> bool" where
  "session_ok ivs X c s =
     (distinct (js_keys (participants s))
      \<and> (\<forall>h. timer s = Some h \<longrightarrow> (h, c) \<in> set ivs)
      \<and> (c \<in> X \<or> (timer s = None) = (length (js_keys (participants s)) \<le> 2)))"

definition timers_ok :: "string set \<Rightarrow> state \<Rightarrow> bool" where
  "timers_ok X st =
     (distinct (js_keys (sessions st))
      \<and> distinct (map fst (intervals st))
      \<and> (\<forall>(h, c) \<in> set (intervals st).
            h < next_timer st \<and> (\<exists>s. js_get (sessions st) c = Some s \<and> timer s = Some h))
      \<and> (\<forall>c s. js_get (sessions st) c = Some s \<longrightarrow> session_ok (intervals st) X c s))"


text \<open>
  The state after lines 56 to 64 of the join handler: the session created when absent,
  the participant entered, \<^verbatim>\<open>ws.sessionCode\<close> assigned.
\<close>

definition joined :: "state \<Rightarrow> string \<Rightarrow> jsval \<Rightarrow> string \<Rightarrow> jsval \<Rightarrow> state" where
  "joined st wsid code key nm =
     st\<lparr>sessions := js_set (sessions st) key
          ((case js_get (sessions st) key of
              None \<Rightarrow> \<lparr>participants = [], links = [], timer = None\<rparr> | Some s \<Rightarrow> s)
           \<lparr>participants :=
              js_set (participants (case js_get (sessions st) key of
                        None \<Rightarrow> \<lparr>participants = [], links = [], timer = None\<rparr> | Some s \<Rightarrow> s))
                wsid \<lparr>name = nm, socket = wsid\<rparr>\<rparr>),
        sockets := (sockets st)(wsid := (sockets st wsid)\<lparr>sessionCode := code\<rparr>)\<rparr>"

section \<open>Example connections and messages\<close>

text \<open>Three connection identities of the shape \<^verbatim>\<open>uuidv4()\<close> returns, in ascending order.\<close>

definition ws_a :: string where
  "ws_a = ''11111111-1111-4111-8111-111111111111''"

definition ws_b :: string where
  "ws_b = ''22222222-2222-4222-8222-222222222222''"

definition ws_c :: string where
  "ws_c = ''33333333-3333-4333-8333-333333333333''"

definition ws_d :: string where
  "ws_d = ''44444444-4444-4444-8444-444444444444''"

definition join_msg :: "jsval \<Rightarrow> jsval \<Rightarrow> raw_message" where
  "join_msg code nm =
     Parsed (JObj [(''type'', JStr ''joinSession''),
                   (''payload'', JObj [(''sessionCode'', code), (''participantName'', nm)])])"

definition signal_msg :: "jsval \<Rightarrow> jsval \<Rightarrow> raw_message" where
  "signal_msg to signal =
     Parsed (JObj [(''type'', JStr ''webrtc-signal''),
                   (''payload'', JObj [(''to'', to), (''signal'', signal)])])"

definition rnd_zero :: "nat \<Rightarrow> real" where
  "rnd_zero k = 0"

definition rnd_half :: "nat \<Rightarrow> real" where
  "rnd_half k = 1 / 2"

text \<open>
  A session of three with every connection open; and an inconsistent one, of a single
  participant that still has a timer, to see the timer cleared.
\<close>

definition session_X3 :: session where
  "session_X3 =
     \<lparr>participants = [(ws_a, \<lparr>name = JStr ''Al'', socket = ws_a\<rparr>),
                      (ws_b, \<lparr>name = JStr ''Bo'', socket = ws_b\<rparr>),
                      (ws_c, \<lparr>name = JStr ''Cy'', socket = ws_c\<rparr>)],
      links = [], timer = None\<rparr>"

definition state_X3 :: state where
  "state_X3 =
     \<lparr>sessions = [(''X'', session_X3)],
      sockets = (\<lambda>_. \<lparr>sessionCode = JStr ''X'', readyState = OPEN\<rparr>),
      intervals = [], timeouts = [], next_timer = 0\<rparr>"

definition state_X1_timer :: state where
  "state_X1_timer =
     \<lparr>sessions = [(''X'', \<lparr>participants = [(ws_a, \<lparr>name = JStr ''Al'', socket = ws_a\<rparr>)],
                           links = [], timer = Some 0\<rparr>)],
      sockets = (\<lambda>_. \<lparr>sessionCode = JStr ''X'', readyState = OPEN\<rparr>),
      intervals = [(0, ''X'')], timeouts = [], next_timer = 1\<rparr>"

text \<open>A session of two; and the session of three with one connection closing.\<close>

definition session_X2 :: session where
  "session_X2 =
     \<lparr>participants = [(ws_a, \<lparr>name = JStr ''Al'', socket = ws_a\<rparr>),
                      (ws_b, \<lparr>name = JStr ''Bo'', socket = ws_b\<rparr>)],
      links = [], timer = None\<rparr>"

definition state_X2 :: state where
  "state_X2 =
     \<lparr>sessions = [(''X'', session_X2)],
      sockets = (\<lambda>_. \<lparr>sessionCode = JStr ''X'', readyState = OPEN\<rparr>),
      intervals = [], timeouts = [], next_timer = 0\<rparr>"


text \<open>Runs: two join session X; a third joins; the interval fires and two leave.\<close>

definition two_join :: "event list" where
  "two_join =
     [Connection ws_a, Message ws_a (join_msg (JStr ''X'') (JStr ''Al'')) rnd_zero,
      Connection ws_b, Message ws_b (join_msg (JStr ''X'') (JStr ''Bo'')) rnd_zero]"

definition three_join :: "event list" where
  "three_join =
     two_join @ [Connection ws_c, Message ws_c (join_msg (JStr ''X'') (JStr ''Cy'')) rnd_half]"

definition before_last_leave :: "event list" where
  "before_last_leave =
     three_join @ [IntervalFires 0, Close ws_b rnd_zero, Close ws_c rnd_zero]"

section \<open>Evaluating the model\<close>

lemmas model_defs =
  init_state_def on_message_def joinSession_def webrtc_signal_def on_close_def
  on_interval_def on_timeout_def initiateShuffleCycle_def performShuffle_def
  broadcastToSession_def build_links_def polite_flag_def clearInterval_def
  set_readyState_def js_get_def js_set_def js_keys_def js_values_def js_delete_def
  object_prototype_keys_def is_array_index_def is_digit_def index_value_def
  countdown_delay_ms_def countdown_duration_def Let_def

lemmas message_defs = join_msg_def signal_msg_def rnd_zero_def rnd_half_def

lemma ws_distinct:
  "ws_a \<noteq> ws_b" "ws_b \<noteq> ws_a" "ws_a \<noteq> ws_c" "ws_c \<noteq> ws_a" "ws_b \<noteq> ws_c" "ws_c \<noteq> ws_b"
  by (simp_all add: ws_a_def ws_b_def ws_c_def)

lemma ws_order:
  "ws_a < ws_b" "ws_b < ws_c" "ws_a < ws_c"
  "\<not> ws_b < ws_a" "\<not> ws_c < ws_b" "\<not> ws_c < ws_a"
  "\<not> ws_a < ws_a" "\<not> ws_b < ws_b" "\<not> ws_c < ws_c"
  by (simp_all add: ws_a_def ws_b_def ws_c_def)

lemma ws_not_index:
  "\<not> list_all is_digit ws_a" "\<not> list_all is_digit ws_b" "\<not> list_all is_digit ws_c"
  by (simp_all add: ws_a_def ws_b_def ws_c_def is_digit_def)

lemmas ws_facts = ws_distinct ws_order ws_not_index

lemma ws_d_facts:
  "\<not> list_all is_digit ws_d" "\<not> ws_d < ws_d"
  by (simp_all add: ws_d_def is_digit_def)

section \<open>Objects: lookup, keys, size\<close>

lemma js_keys_simps [simp]:
  "js_keys [] = []" "js_keys ((k, v) # obj) = k # js_keys obj"
  by (simp_all add: js_keys_def)

lemma js_get_simps [simp]:
  "js_get [] k = None" "js_get ((k', v) # obj) k = (if k = k' then Some v else js_get obj k)"
  by (simp_all add: js_get_def)

lemma js_get_None_iff: "js_get obj k = None \<longleftrightarrow> k \<notin> set (js_keys obj)"
  by (induction obj) (auto split: if_splits)

lemma js_get_Some_keys: "js_get obj k = Some v \<Longrightarrow> k \<in> set (js_keys obj)"
  by (induction obj) (auto split: if_splits)

lemma js_get_Some_mem: "js_get obj k = Some v \<Longrightarrow> (k, v) \<in> set obj"
  by (induction obj) (auto split: if_splits)

lemma js_get_distinct_mem: "distinct (js_keys obj) \<Longrightarrow> (k, v) \<in> set obj \<Longrightarrow> js_get obj k = Some v"
  by (induction obj) (auto simp: js_keys_def rev_image_eqI)

lemma js_keys_insert: "set (js_keys (js_insert k v obj)) = insert k (set (js_keys obj))"
  by (induction obj) (auto split: if_splits)

lemma length_js_insert: "length (js_insert k v obj) = Suc (length obj)"
  by (induction obj) auto

lemma distinct_js_insert:
  "k \<notin> set (js_keys obj) \<Longrightarrow> distinct (js_keys obj) \<Longrightarrow> distinct (js_keys (js_insert k v obj))"
  by (induction obj) (auto simp: js_keys_insert)

lemma js_get_insert:
  "k \<notin> set (js_keys obj) \<Longrightarrow> js_get (js_insert k v obj) k' = (if k' = k then Some v else js_get obj k')"
  by (induction obj) auto

lemma js_keys_overwrite:
  "js_keys (map (\<lambda>(k', v'). if k' = k then (k', v) else (k', v')) obj) = js_keys obj"
  by (induction obj) auto

lemma js_get_overwrite:
  "js_get (map (\<lambda>(k', v'). if k' = k then (k', v) else (k', v')) obj) k'
     = (if k' = k \<and> k \<in> set (js_keys obj) then Some v else js_get obj k')"
  by (induction obj) (auto simp: js_get_None_iff)

lemma js_get_set: "js_get (js_set obj k v) k' = (if k' = k then Some v else js_get obj k')"
  by (simp add: js_set_def js_get_insert js_get_overwrite)

lemma set_js_keys_set: "set (js_keys (js_set obj k v)) = insert k (set (js_keys obj))"
  by (auto simp: js_set_def js_keys_insert js_keys_overwrite)

lemma distinct_js_set: "distinct (js_keys obj) \<Longrightarrow> distinct (js_keys (js_set obj k v))"
  by (simp add: js_set_def distinct_js_insert js_keys_overwrite)

lemma length_js_set:
  "length (js_set obj k v) = (if k \<in> set (js_keys obj) then length obj else Suc (length obj))"
  by (simp add: js_set_def length_js_insert)

lemma js_keys_delete: "js_keys (js_delete obj k) = filter (\<lambda>k'. k' \<noteq> k) (js_keys obj)"
  by (induction obj) (auto simp: js_delete_def)

lemma js_get_delete: "js_get (js_delete obj k) k' = (if k' = k then None else js_get obj k')"
  by (induction obj) (auto simp: js_delete_def)

lemma length_js_keys [simp]: "length (js_keys obj) = length obj"
  by (simp add: js_keys_def)

(* Fisher-Yates *)

lemma length_js_set_ge: "length obj \<le> length (js_set obj k v)"
  by (simp add: length_js_set)

lemma js_delete_absent: "k \<notin> set (js_keys obj) \<Longrightarrow> js_delete obj k = obj"
  by (induction obj) (auto simp: js_delete_def)

lemma length_delete_present:
  "distinct (js_keys obj) \<Longrightarrow> k \<in> set (js_keys obj) \<Longrightarrow> Suc (length (js_delete obj k)) = length obj"
proof (induction obj)
  case Nil
  then show ?case by simp
next
  case (Cons kv obj)
  obtain k' v where kv: "kv = (k', v)" by (cases kv)
  show ?case
  proof (cases "k' = k")
    case True
    then have "k \<notin> set (js_keys obj)" using Cons.prems(1) kv by simp
    then have "js_delete obj k = obj" by (rule js_delete_absent)
    then show ?thesis using True kv by (simp add: js_delete_def)
  next
    case False
    then have "Suc (length (js_delete obj k)) = length obj"
      using Cons kv by simp
    then show ?thesis using False kv by (simp add: js_delete_def)
  qed
qed

lemma find_session:
  assumes "find (\<lambda>(code, s). js_get (participants s) wsid \<noteq> None) obj = Some (code, session)"
    and "distinct (js_keys obj)"
  shows "js_get obj code = Some session \<and> wsid \<in> set (js_keys (participants session))"
proof -
  from assms(1) have "(code, session) \<in> set obj" "js_get (participants session) wsid \<noteq> None"
    by (auto simp: find_Some_iff in_set_conv_nth)
  then show ?thesis using assms(2) by (simp add: js_get_distinct_mem js_get_None_iff)
qed

section \<open>The permutation and the links\<close>

lemma draw_in_range:
  assumes "0 \<le> r" "r < 1"
  shows "nat \<lfloor>r * real (i + 1)\<rfloor> \<le> i"
proof -
  have "r * real (i + 1) < real (i + 1)" using assms by simp
  then have "\<lfloor>r * real (i + 1)\<rfloor> < int (i + 1)" by (simp add: floor_less_iff)
  then show ?thesis by linarith
qed

lemma shuffle_loop_mset:
  "\<forall>k. 0 \<le> rnd k \<and> rnd k < 1 \<Longrightarrow> i < length ids \<Longrightarrow> mset (shuffle_loop rnd k i ids) = mset ids"
proof (induction i arbitrary: k ids)
  case 0
  then show ?case by simp
next
  case (Suc i')
  let ?j = "nat \<lfloor>rnd k * real (Suc i' + 1)\<rfloor>"
  have j: "?j \<le> Suc i'" using Suc.prems(1) draw_in_range by blast
  have sw: "mset (ids[Suc i' := ids ! ?j, ?j := ids ! Suc i']) = mset ids"
    using j Suc.prems(2) by (simp add: mset_swap)
  have "mset (shuffle_loop rnd (Suc k) i' (ids[Suc i' := ids ! ?j, ?j := ids ! Suc i']))
          = mset (ids[Suc i' := ids ! ?j, ?j := ids ! Suc i'])"
    using Suc.prems by (intro Suc.IH) simp_all
  with sw show ?case by (simp add: Let_def)
qed

lemma shuffle_all_mset:
  assumes "\<forall>k. 0 \<le> rnd k \<and> rnd k < 1"
  shows "mset (shuffle_loop rnd 0 (length ids - 1) ids) = mset ids"
proof (cases ids)
  case Nil
  then show ?thesis by simp
next
  case (Cons x xs)
  then show ?thesis using assms by (intro shuffle_loop_mset) simp_all
qed

lemma links_upto_Suc:
  "links_upto p (Suc m) = js_set (links_upto p m) (p ! m) (p ! ((m + 1) mod length p))"
  by (simp add: links_upto_def)

lemma links_upto_props:
  assumes "distinct p" "m \<le> length p"
  shows "distinct (js_keys (links_upto p m))
       \<and> set (js_keys (links_upto p m)) = set (take m p)
       \<and> length (links_upto p m) = m
       \<and> (\<forall>i<m. js_get (links_upto p m) (p ! i) = Some (p ! ((i + 1) mod length p)))"
  using assms(2)
proof (induction m)
  case 0
  show ?case by (simp add: links_upto_def)
next
  case (Suc m)
  then have IH: "distinct (js_keys (links_upto p m))"
      "set (js_keys (links_upto p m)) = set (take m p)"
      "length (links_upto p m) = m"
      "\<forall>i<m. js_get (links_upto p m) (p ! i) = Some (p ! ((i + 1) mod length p))"
    by simp_all
  have m: "m < length p" using Suc.prems by simp
  have fresh: "p ! m \<notin> set (take m p)"
  proof
    assume "p ! m \<in> set (take m p)"
    then obtain i where "i < m" "p ! i = p ! m"
      using m by (auto simp: in_set_conv_nth)
    with assms(1) m show False by (simp add: nth_eq_iff_index_eq)
  qed
  have other: "\<And>i. i < m \<Longrightarrow> p ! i \<noteq> p ! m"
    using assms(1) m by (simp add: nth_eq_iff_index_eq)
  show ?case
    using IH m fresh other
    by (auto simp: links_upto_Suc distinct_js_set set_js_keys_set length_js_set js_get_set
        take_Suc_conv_app_nth less_Suc_eq)
qed

lemma build_links_upto: "build_links p = links_upto p (length p)"
  by (simp add: build_links_def links_upto_def)

lemma build_links_cycle: "distinct p \<Longrightarrow> links_form_cycle (build_links p) p"
  using links_upto_props [of p "length p"]
  by (simp add: links_form_cycle_def build_links_upto list_all_iff)

lemma cycle_no_self_link:
  assumes "links_form_cycle lnk p" "2 \<le> length p" "(a, b) \<in> set lnk"
  shows "a \<noteq> b"
proof -
  have d: "distinct p" and l: "length lnk = length p" and s: "set (js_keys lnk) = set p"
    and nx: "\<And>i. i < length p \<Longrightarrow> js_get lnk (p ! i) = Some (p ! ((i + 1) mod length p))"
    using assms(1) by (auto simp: links_form_cycle_def list_all_iff)
  have "card (set (js_keys lnk)) = length (js_keys lnk)"
    using d l s by (simp add: distinct_card)
  then have dk: "distinct (js_keys lnk)" by (simp add: card_distinct)
  have "a \<in> set p" using assms(3) s by (force simp: js_keys_def)
  then obtain i where i: "i < length p" "p ! i = a" by (auto simp: in_set_conv_nth)
  have "js_get lnk a = Some b" using dk assms(3) by (rule js_get_distinct_mem)
  with nx [OF i(1)] i(2) have b: "b = p ! ((i + 1) mod length p)" by simp
  have "(i + 1) mod length p \<noteq> i"
  proof (cases "i + 1 < length p")
    case True then show ?thesis by simp
  next
    case False
    with i(1) have "i + 1 = length p" by simp
    then show ?thesis using assms(2) by simp
  qed
  moreover have "0 < length p" using i(1) by (cases p) simp_all
  then have "(i + 1) mod length p < length p" by (rule mod_less_divisor)
  ultimately have "p ! i \<noteq> p ! ((i + 1) mod length p)"
    using d i(1) by (simp add: nth_eq_iff_index_eq)
  then show ?thesis using i(2) b by simp
qed

lemma notify_ok:
  assumes "\<forall>(f, t) \<in> set lnk. f \<in> set (js_keys ps) \<and> t \<in> set (js_keys ps)"
  shows "\<exists>out. notify socks ps lnk = Inr out"
  using assms
proof (induction lnk)
  case Nil
  then show ?case by simp
next
  case (Cons ft lnk)
  obtain f t where ft: "ft = (f, t)" by (cases ft)
  from Cons.prems ft have "js_get ps f \<noteq> None" "js_get ps t \<noteq> None"
    by (simp_all add: js_get_None_iff)
  then obtain pf pt where "js_get ps f = Some pf" "js_get ps t = Some pt"
    by blast
  moreover from Cons obtain out where "notify socks ps lnk = Inr out" by auto
  ultimately show ?case using ft by simp
qed

lemma cycle_values:
  assumes "links_form_cycle lnk p" "(a, b) \<in> set lnk"
  shows "a \<in> set p \<and> b \<in> set p"
proof -
  have d: "distinct p" and l: "length lnk = length p" and s: "set (js_keys lnk) = set p"
    and nx: "\<And>i. i < length p \<Longrightarrow> js_get lnk (p ! i) = Some (p ! ((i + 1) mod length p))"
    using assms(1) by (auto simp: links_form_cycle_def list_all_iff)
  have "card (set (js_keys lnk)) = length (js_keys lnk)"
    using d l s by (simp add: distinct_card)
  then have dk: "distinct (js_keys lnk)" by (simp add: card_distinct)
  have a: "a \<in> set p" using assms(2) s by (force simp: js_keys_def)
  then obtain i where i: "i < length p" "p ! i = a" by (auto simp: in_set_conv_nth)
  have "js_get lnk a = Some b" using dk assms(2) by (rule js_get_distinct_mem)
  with nx [OF i(1)] i(2) have b: "b = p ! ((i + 1) mod length p)" by simp
  have "0 < length p" using i(1) by (cases p) simp_all
  then have "(i + 1) mod length p < length p" by (rule mod_less_divisor)
  then show ?thesis using a b by simp
qed

lemma notify_Cons:
  "notify socks ps ((f, t) # lnk) = Inr out \<Longrightarrow>
   \<exists>pf pt rest. js_get ps f = Some pf \<and> js_get ps t = Some pt
     \<and> notify socks ps lnk = Inr rest
     \<and> out = (if readyState (socks (socket pf)) = OPEN
               then [(socket pf, Shuffle t (name pt) (polite_flag f t))] else []) @ rest"
  by (auto split: option.splits sum.splits)

lemma notify_sound:
  "notify socks ps lnk = Inr out \<Longrightarrow> (w, m) \<in> set out \<Longrightarrow>
   \<exists>f t pf pt. (f, t) \<in> set lnk \<and> js_get ps f = Some pf \<and> js_get ps t = Some pt
     \<and> w = socket pf \<and> m = Shuffle t (name pt) (polite_flag f t)"
proof (induction lnk arbitrary: out)
  case Nil
  then show ?case by simp
next
  case (Cons ft lnk)
  obtain f t where ft: "ft = (f, t)" by (cases ft)
  from notify_Cons [OF Cons.prems(1) [unfolded ft]] obtain pf pt rest where
    pf: "js_get ps f = Some pf" and pt: "js_get ps t = Some pt"
    and rest: "notify socks ps lnk = Inr rest"
    and out: "out = (if readyState (socks (socket pf)) = OPEN
                     then [(socket pf, Shuffle t (name pt) (polite_flag f t))] else []) @ rest"
    by blast
  from Cons.prems(2) out consider
    (here) "(w, m) = (socket pf, Shuffle t (name pt) (polite_flag f t))" | (later) "(w, m) \<in> set rest"
    by (auto split: if_splits)
  then show ?case
  proof cases
    case here
    then show ?thesis using pf pt ft by auto
  next
    case later
    from Cons.IH [OF rest later] show ?thesis using ft by auto
  qed
qed

lemma notify_complete:
  "notify socks ps lnk = Inr out \<Longrightarrow> (f, t) \<in> set lnk \<Longrightarrow>
   \<exists>pf pt. js_get ps f = Some pf \<and> js_get ps t = Some pt
     \<and> (readyState (socks (socket pf)) = OPEN \<longrightarrow>
           (socket pf, Shuffle t (name pt) (polite_flag f t)) \<in> set out)"
proof (induction lnk arbitrary: out)
  case Nil
  then show ?case by simp
next
  case (Cons ft lnk)
  obtain f' t' where ft: "ft = (f', t')" by (cases ft)
  from notify_Cons [OF Cons.prems(1) [unfolded ft]] obtain pf pt rest where
    pf: "js_get ps f' = Some pf" and pt: "js_get ps t' = Some pt"
    and rest: "notify socks ps lnk = Inr rest"
    and out: "out = (if readyState (socks (socket pf)) = OPEN
                     then [(socket pf, Shuffle t' (name pt) (polite_flag f' t'))] else []) @ rest"
    by blast
  from Cons.prems(2) ft consider (here) "(f, t) = (f', t')" | (later) "(f, t) \<in> set lnk"
    by auto
  then show ?case
  proof cases
    case here
    then show ?thesis using pf pt out by auto
  next
    case later
    from Cons.IH [OF rest later] show ?thesis using out by auto
  qed
qed

lemma polite_flag_one_direction: "A \<noteq> B \<Longrightarrow> polite_flag B A = (\<not> polite_flag A B)"
  by (auto simp: polite_flag_def)

section \<open>What a shuffle leaves alone\<close>

lemma performShuffle_cases:
  assumes "performShuffle rnd st code = Inr (st', out)"
  shows "(js_get (sessions st) code = None \<and> st' = st \<and> out = [])
       \<or> (\<exists>s l. js_get (sessions st) code = Some s
              \<and> st' = st\<lparr>sessions := js_set (sessions st) code (s\<lparr>links := l\<rparr>)\<rparr>)"
  using assms
  by (auto simp: performShuffle_def Let_def split: option.splits sum.splits)

lemma performShuffle_absent:
  "js_get (sessions st) code = None \<Longrightarrow> performShuffle rnd st code = Inr (st, [])"
  by (simp add: performShuffle_def)

lemma broadcast_absent:
  "js_get (sessions st) code = None \<Longrightarrow> broadcastToSession st code m = []"
  by (simp add: broadcastToSession_def)

lemma performShuffle_frame:
  assumes "performShuffle rnd st code = Inr (st', out)"
  shows "intervals st' = intervals st \<and> next_timer st' = next_timer st
       \<and> timeouts st' = timeouts st \<and> sockets st' = sockets st"
  using performShuffle_cases [OF assms] by auto

lemma performShuffle_members:
  assumes "performShuffle rnd st code = Inr (st', out)"
  shows "sockets st' = sockets st
       \<and> map_option participants (js_get (sessions st') c)
           = map_option participants (js_get (sessions st) c)"
  using performShuffle_cases [OF assms] by (auto simp: js_get_set)

lemma initiateShuffleCycle_intervals:
  assumes "js_get (sessions st) code = Some s"
    and "initiateShuffleCycle rnd st code = Inr (st', out)"
  shows "intervals st' = clearInterval (timer s) (intervals st)
           @ (if 2 < length (js_keys (participants s)) then [(next_timer st, code)] else [])"
proof -
  define st1 where "st1 = (case timer s of None \<Rightarrow> st
     | Some h \<Rightarrow> st\<lparr>intervals := clearInterval (Some h) (intervals st),
                    sessions := js_set (sessions st) code (s\<lparr>timer := None\<rparr>)\<rparr>)"
  have iv1: "intervals st1 = clearInterval (timer s) (intervals st)"
    and nt1: "next_timer st1 = next_timer st"
    by (auto simp: st1_def clearInterval_def split: option.splits)
  have get1: "js_get (sessions st1) code = Some (s\<lparr>timer := None\<rparr>)"
    using assms(1) by (auto simp: st1_def js_get_set split: option.splits)
  from assms obtain st2 out2 where ps: "performShuffle rnd st1 code = Inr (st2, out2)"
    by (auto simp: initiateShuffleCycle_def st1_def Let_def split: sum.splits)
  from performShuffle_cases [OF ps] get1 obtain l where
    st2: "st2 = st1\<lparr>sessions := js_set (sessions st1) code (s\<lparr>timer := None, links := l\<rparr>)\<rparr>"
    by auto
  have get2: "js_get (sessions st2) code = Some (s\<lparr>timer := None, links := l\<rparr>)"
    by (simp add: st2 js_get_set)
  have "intervals st' = intervals st2
           @ (if 2 < length (js_keys (participants s)) then [(next_timer st2, code)] else [])"
    using assms ps get2
    by (auto simp: initiateShuffleCycle_def st1_def [symmetric] Let_def)
  then show ?thesis using st2 iv1 nt1 by simp
qed

lemma initiateShuffleCycle_members:
  assumes "initiateShuffleCycle rnd st code = Inr (st', out)"
  shows "sockets st' = sockets st
       \<and> map_option participants (js_get (sessions st') c)
           = map_option participants (js_get (sessions st) c)"
proof (cases "js_get (sessions st) code")
  case None
  then show ?thesis using assms by (simp add: initiateShuffleCycle_def)
next
  case (Some s)
  define st1 where "st1 = (case timer s of None \<Rightarrow> st
     | Some h \<Rightarrow> st\<lparr>intervals := clearInterval (Some h) (intervals st),
                    sessions := js_set (sessions st) code (s\<lparr>timer := None\<rparr>)\<rparr>)"
  have m1: "sockets st1 = sockets st
       \<and> map_option participants (js_get (sessions st1) c)
           = map_option participants (js_get (sessions st) c)"
    using Some by (auto simp: st1_def js_get_set split: option.splits)
  from assms Some obtain st2 out2 where ps: "performShuffle rnd st1 code = Inr (st2, out2)"
    by (auto simp: initiateShuffleCycle_def st1_def Let_def split: sum.splits)
  have m2: "sockets st2 = sockets st1
       \<and> map_option participants (js_get (sessions st2) c)
           = map_option participants (js_get (sessions st1) c)"
    using ps by (rule performShuffle_members)
  have "js_get (sessions st1) code \<noteq> None"
    using Some by (auto simp: st1_def js_get_set split: option.splits)
  then obtain s2 where get2: "js_get (sessions st2) code = Some s2"
    using performShuffle_cases [OF ps] by (auto simp: js_get_set)
  have "st' = st2 \<or> st' = st2\<lparr>intervals := intervals st2 @ [(next_timer st2, code)],
                 sessions := js_set (sessions st2) code (s2\<lparr>timer := Some (next_timer st2)\<rparr>),
                 next_timer := Suc (next_timer st2)\<rparr>"
    using assms Some ps get2
    by (auto simp: initiateShuffleCycle_def st1_def [symmetric] Let_def split: if_splits)
  then have m3: "sockets st' = sockets st2
       \<and> map_option participants (js_get (sessions st') c)
           = map_option participants (js_get (sessions st2) c)"
    using get2 by (auto simp: js_get_set)
  show ?thesis using m1 m2 m3 by simp
qed

lemma joinSession_cases:
  assumes run: "joinSession rnd st wsid payload = Inr (st', out)"
  shows "\<exists>code nm key.
           js_get_prop payload ''sessionCode'' = Some code
         \<and> js_get_prop payload ''participantName'' = Some nm
         \<and> ToString code = Some key
         \<and> ((\<exists>out2. initiateShuffleCycle rnd (joined st wsid code key nm) key = Inr (st', out2))
            \<or> st' = joined st wsid code key nm)"
proof -
  from run obtain code nm key shown where
    f: "js_get_prop payload ''sessionCode'' = Some code"
       "js_get_prop payload ''participantName'' = Some nm"
       "ToString code = Some key" "ToString nm = Some shown"
    and np: "\<not> (js_get (sessions st) key = None \<and> key \<in> set object_prototype_keys)"
    by (auto simp: joinSession_def Let_def split: option.splits if_splits)
  have "(\<exists>out2. initiateShuffleCycle rnd (joined st wsid code key nm) key = Inr (st', out2))
            \<or> st' = joined st wsid code key nm"
    using run f np
    by (auto simp: joinSession_def Let_def joined_def split: sum.splits if_splits)
  with f show ?thesis by blast
qed

lemma joinSession_registers:
  assumes run: "joinSession rnd st wsid payload = Inr (st', out)"
    and f1: "js_get_prop payload ''sessionCode'' = Some code"
    and f2: "js_get_prop payload ''participantName'' = Some nm"
    and key: "ToString code = Some key"
  shows "\<exists>s. js_get (sessions st') key = Some s
       \<and> js_get (participants s) wsid = Some \<lparr>name = nm, socket = wsid\<rparr>
       \<and> sessionCode (sockets st' wsid) = code"
proof -
  let ?st1 = "joined st wsid code key nm"
  have get1: "\<exists>s. js_get (sessions ?st1) key = Some s
       \<and> js_get (participants s) wsid = Some \<lparr>name = nm, socket = wsid\<rparr>"
    by (simp add: joined_def js_get_set)
  have sock1: "sessionCode (sockets ?st1 wsid) = code" by (simp add: joined_def)
  from joinSession_cases [OF run] f1 f2 key
  have "(\<exists>out2. initiateShuffleCycle rnd ?st1 key = Inr (st', out2)) \<or> st' = ?st1"
    by auto
  then have "sockets st' = sockets ?st1
       \<and> map_option participants (js_get (sessions st') key)
           = map_option participants (js_get (sessions ?st1) key)"
    using initiateShuffleCycle_members by blast
  with get1 sock1 show ?thesis by (auto simp: map_option_case split: option.splits)
qed

lemma on_message_readyState:
  assumes "on_message rnd st wsid message = Inr (st', out)"
  shows "readyState (sockets st' w) = readyState (sockets st w)"
proof -
  from assms have "st' = st \<or> (\<exists>payload. joinSession rnd st wsid payload = Inr (st', out))"
    by (auto simp: on_message_def webrtc_signal_def
        split: raw_message.splits option.splits if_splits)
  then show ?thesis
  proof
    assume "st' = st" then show ?thesis by simp
  next
    assume "\<exists>payload. joinSession rnd st wsid payload = Inr (st', out)"
    then obtain payload where run: "joinSession rnd st wsid payload = Inr (st', out)" by blast
    from joinSession_cases [OF run] obtain code nm key where
      "(\<exists>out2. initiateShuffleCycle rnd (joined st wsid code key nm) key = Inr (st', out2))
            \<or> st' = joined st wsid code key nm" by blast
    then have "sockets st' = sockets (joined st wsid code key nm)"
      using initiateShuffleCycle_members by blast
    then show ?thesis by (simp add: joined_def)
  qed
qed

section \<open>The timers stay consistent\<close>

lemma timers_ok_sockets [simp]: "timers_ok X (st\<lparr>sockets := f\<rparr>) = timers_ok X st"
  by (simp add: timers_ok_def session_ok_def)

lemma timers_ok_timeouts [simp]: "timers_ok X (st\<lparr>timeouts := f\<rparr>) = timers_ok X st"
  by (simp add: timers_ok_def session_ok_def)

lemma timers_ok_init: "timers_ok {} init_state"
  by (simp add: timers_ok_def init_state_def)

lemma timers_ok_links:
  assumes "timers_ok X st" "js_get (sessions st) code = Some s"
  shows "timers_ok X (st\<lparr>sessions := js_set (sessions st) code (s\<lparr>links := l\<rparr>)\<rparr>)"
  using assms
  by (auto simp: timers_ok_def session_ok_def js_get_set distinct_js_set split: if_splits)

lemma timers_ok_clear:
  assumes "timers_ok X st" "js_get (sessions st) code = Some s" "timer s = Some h"
  shows "timers_ok (insert code X)
           (st\<lparr>intervals := clearInterval (Some h) (intervals st),
               sessions := js_set (sessions st) code (s\<lparr>timer := None\<rparr>)\<rparr>)"
proof -
  have d: "distinct (map fst (intervals st))" using assms(1) by (simp add: timers_ok_def)
  have iv: "\<And>h' c. (h', c) \<in> set (intervals st) \<Longrightarrow>
      h' < next_timer st \<and> (\<exists>s. js_get (sessions st) c = Some s \<and> timer s = Some h')"
    using assms(1) by (auto simp: timers_ok_def)
  have so: "\<And>c s. js_get (sessions st) c = Some s \<Longrightarrow> session_ok (intervals st) X c s"
    using assms(1) by (simp add: timers_ok_def)
  have hc: "(h, code) \<in> set (intervals st)"
    using so [OF assms(2)] assms(3) by (simp add: session_ok_def)
  have uniq: "\<And>c. (h, c) \<in> set (intervals st) \<Longrightarrow> c = code"
    using d hc by (meson eq_key_imp_eq_value)
  show ?thesis
    unfolding timers_ok_def
  proof (intro conjI allI impI)
    show "distinct (js_keys (sessions (st\<lparr>intervals := clearInterval (Some h) (intervals st),
               sessions := js_set (sessions st) code (s\<lparr>timer := None\<rparr>)\<rparr>)))"
      using assms(1) by (simp add: timers_ok_def distinct_js_set)
    show "distinct (map fst (intervals (st\<lparr>intervals := clearInterval (Some h) (intervals st),
               sessions := js_set (sessions st) code (s\<lparr>timer := None\<rparr>)\<rparr>)))"
      using d by (simp add: clearInterval_def distinct_map_filter)
    show "\<forall>(h', c) \<in> set (intervals (st\<lparr>intervals := clearInterval (Some h) (intervals st),
               sessions := js_set (sessions st) code (s\<lparr>timer := None\<rparr>)\<rparr>)).
            h' < next_timer (st\<lparr>intervals := clearInterval (Some h) (intervals st),
               sessions := js_set (sessions st) code (s\<lparr>timer := None\<rparr>)\<rparr>)
            \<and> (\<exists>s'. js_get (sessions (st\<lparr>intervals := clearInterval (Some h) (intervals st),
               sessions := js_set (sessions st) code (s\<lparr>timer := None\<rparr>)\<rparr>)) c = Some s'
                     \<and> timer s' = Some h')"
      using iv assms(2,3) by (fastforce simp: clearInterval_def js_get_set)
  next
    fix c s'
    assume "js_get (sessions (st\<lparr>intervals := clearInterval (Some h) (intervals st),
               sessions := js_set (sessions st) code (s\<lparr>timer := None\<rparr>)\<rparr>)) c = Some s'"
    then have c: "(c = code \<and> s' = s\<lparr>timer := None\<rparr>) \<or> (c \<noteq> code \<and> js_get (sessions st) c = Some s')"
      by (auto simp: js_get_set split: if_splits)
    show "session_ok (intervals (st\<lparr>intervals := clearInterval (Some h) (intervals st),
               sessions := js_set (sessions st) code (s\<lparr>timer := None\<rparr>)\<rparr>)) (insert code X) c s'"
      using c so [OF assms(2)] so [of c s'] uniq
      by (auto simp: session_ok_def clearInterval_def split: option.splits)
  qed
qed

lemma timers_ok_start:
  assumes "timers_ok (insert code X) st" "js_get (sessions st) code = Some s" "timer s = None"
    and "2 < length (js_keys (participants s))"
  shows "timers_ok (X - {code})
           (st\<lparr>intervals := intervals st @ [(next_timer st, code)],
               sessions := js_set (sessions st) code (s\<lparr>timer := Some (next_timer st)\<rparr>),
               next_timer := Suc (next_timer st)\<rparr>)"
proof -
  have d: "distinct (map fst (intervals st))" using assms(1) by (simp add: timers_ok_def)
  have iv: "\<And>h' c. (h', c) \<in> set (intervals st) \<Longrightarrow>
      h' < next_timer st \<and> (\<exists>s. js_get (sessions st) c = Some s \<and> timer s = Some h')"
    using assms(1) by (auto simp: timers_ok_def)
  have so: "\<And>c s. js_get (sessions st) c = Some s \<Longrightarrow> session_ok (intervals st) (insert code X) c s"
    using assms(1) by (simp add: timers_ok_def)
  have fresh: "next_timer st \<notin> fst ` set (intervals st)"
    using iv by force
  have nocode: "\<And>h'. (h', code) \<notin> set (intervals st)"
    using iv assms(2,3) by force
  show ?thesis
    unfolding timers_ok_def
  proof (intro conjI allI impI)
    show "distinct (js_keys (sessions (st\<lparr>intervals := intervals st @ [(next_timer st, code)],
               sessions := js_set (sessions st) code (s\<lparr>timer := Some (next_timer st)\<rparr>),
               next_timer := Suc (next_timer st)\<rparr>)))"
      using assms(1) by (simp add: timers_ok_def distinct_js_set)
    show "distinct (map fst (intervals (st\<lparr>intervals := intervals st @ [(next_timer st, code)],
               sessions := js_set (sessions st) code (s\<lparr>timer := Some (next_timer st)\<rparr>),
               next_timer := Suc (next_timer st)\<rparr>)))"
      using d fresh by simp
    show "\<forall>(h', c) \<in> set (intervals (st\<lparr>intervals := intervals st @ [(next_timer st, code)],
               sessions := js_set (sessions st) code (s\<lparr>timer := Some (next_timer st)\<rparr>),
               next_timer := Suc (next_timer st)\<rparr>)).
            h' < next_timer (st\<lparr>intervals := intervals st @ [(next_timer st, code)],
               sessions := js_set (sessions st) code (s\<lparr>timer := Some (next_timer st)\<rparr>),
               next_timer := Suc (next_timer st)\<rparr>)
            \<and> (\<exists>s'. js_get (sessions (st\<lparr>intervals := intervals st @ [(next_timer st, code)],
               sessions := js_set (sessions st) code (s\<lparr>timer := Some (next_timer st)\<rparr>),
               next_timer := Suc (next_timer st)\<rparr>)) c = Some s'
                     \<and> timer s' = Some h')"
      using iv nocode by (fastforce simp: js_get_set less_Suc_eq)
  next
    fix c s'
    assume "js_get (sessions (st\<lparr>intervals := intervals st @ [(next_timer st, code)],
               sessions := js_set (sessions st) code (s\<lparr>timer := Some (next_timer st)\<rparr>),
               next_timer := Suc (next_timer st)\<rparr>)) c = Some s'"
    then have c: "(c = code \<and> s' = s\<lparr>timer := Some (next_timer st)\<rparr>)
        \<or> (c \<noteq> code \<and> js_get (sessions st) c = Some s')"
      by (auto simp: js_get_set split: if_splits)
    show "session_ok (intervals (st\<lparr>intervals := intervals st @ [(next_timer st, code)],
               sessions := js_set (sessions st) code (s\<lparr>timer := Some (next_timer st)\<rparr>),
               next_timer := Suc (next_timer st)\<rparr>)) (X - {code}) c s'"
      using c so [OF assms(2)] so [of c s'] assms(4)
      by (auto simp: session_ok_def split: option.splits)
  qed
qed

lemma timers_ok_exempt:
  assumes "timers_ok X st"
    and "\<And>c s. c \<in> X \<Longrightarrow> c \<notin> Y \<Longrightarrow> js_get (sessions st) c = Some s \<Longrightarrow>
           (timer s = None) = (length (js_keys (participants s)) \<le> 2)"
  shows "timers_ok Y st"
  using assms unfolding timers_ok_def session_ok_def by blast

lemma timers_ok_participants:
  assumes "timers_ok X st" "js_get (sessions st) code = Some s" "distinct (js_keys ps')"
  shows "timers_ok (insert code X)
           (st\<lparr>sessions := js_set (sessions st) code (s\<lparr>participants := ps'\<rparr>)\<rparr>)"
  using assms
  by (auto simp: timers_ok_def session_ok_def js_get_set distinct_js_set split: if_splits)

lemma timers_ok_new_session:
  assumes "timers_ok X st" "js_get (sessions st) code = None" "distinct (js_keys ps')"
  shows "timers_ok (insert code X)
           (st\<lparr>sessions := js_set (sessions st) code
                              \<lparr>participants = ps', links = l, timer = None\<rparr>\<rparr>)"
  using assms
  by (auto simp: timers_ok_def session_ok_def js_get_set distinct_js_set split: if_splits)

lemma timers_ok_delete:
  assumes "timers_ok X st" "js_get (sessions st) code = Some s"
  shows "timers_ok (X - {code})
           (st\<lparr>intervals := clearInterval (timer s) (intervals st),
               sessions := js_delete (sessions st) code\<rparr>)"
proof -
  have d: "distinct (map fst (intervals st))" using assms(1) by (simp add: timers_ok_def)
  have iv: "\<And>h' c. (h', c) \<in> set (intervals st) \<Longrightarrow>
      h' < next_timer st \<and> (\<exists>s. js_get (sessions st) c = Some s \<and> timer s = Some h')"
    using assms(1) by (auto simp: timers_ok_def)
  have so: "\<And>c s. js_get (sessions st) c = Some s \<Longrightarrow> session_ok (intervals st) X c s"
    using assms(1) by (simp add: timers_ok_def)
  have gone: "\<And>h'. (h', code) \<in> set (clearInterval (timer s) (intervals st)) \<Longrightarrow> False"
    using iv assms(2) by (fastforce simp: clearInterval_def split: option.splits)
  have kept: "\<And>h' c. c \<noteq> code \<Longrightarrow> (h', c) \<in> set (intervals st) \<Longrightarrow>
      (h', c) \<in> set (clearInterval (timer s) (intervals st))"
  proof -
    fix h' c assume c: "c \<noteq> code" "(h', c) \<in> set (intervals st)"
    show "(h', c) \<in> set (clearInterval (timer s) (intervals st))"
    proof (cases "timer s")
      case None
      then show ?thesis using c by (simp add: clearInterval_def)
    next
      case (Some h)
      then have "(h, code) \<in> set (intervals st)"
        using so [OF assms(2)] by (simp add: session_ok_def)
      then have "h' \<noteq> h" using d c by (meson eq_key_imp_eq_value)
      then show ?thesis using Some c by (simp add: clearInterval_def)
    qed
  qed
  have sub: "set (clearInterval (timer s) (intervals st)) \<subseteq> set (intervals st)"
    by (auto simp: clearInterval_def split: option.splits)
  show ?thesis
    unfolding timers_ok_def
  proof (intro conjI allI impI)
    show "distinct (js_keys (sessions (st\<lparr>intervals := clearInterval (timer s) (intervals st),
               sessions := js_delete (sessions st) code\<rparr>)))"
      using assms(1) by (simp add: timers_ok_def js_keys_delete)
    show "distinct (map fst (intervals (st\<lparr>intervals := clearInterval (timer s) (intervals st),
               sessions := js_delete (sessions st) code\<rparr>)))"
      using d by (simp add: clearInterval_def distinct_map_filter split: option.splits)
    show "\<forall>(h', c) \<in> set (intervals (st\<lparr>intervals := clearInterval (timer s) (intervals st),
               sessions := js_delete (sessions st) code\<rparr>)).
            h' < next_timer (st\<lparr>intervals := clearInterval (timer s) (intervals st),
               sessions := js_delete (sessions st) code\<rparr>)
            \<and> (\<exists>s'. js_get (sessions (st\<lparr>intervals := clearInterval (timer s) (intervals st),
               sessions := js_delete (sessions st) code\<rparr>)) c = Some s' \<and> timer s' = Some h')"
      using iv gone sub by (fastforce simp: js_get_delete)
  next
    fix c s'
    assume "js_get (sessions (st\<lparr>intervals := clearInterval (timer s) (intervals st),
               sessions := js_delete (sessions st) code\<rparr>)) c = Some s'"
    then have c: "c \<noteq> code" "js_get (sessions st) c = Some s'"
      by (auto simp: js_get_delete split: if_splits)
    show "session_ok (intervals (st\<lparr>intervals := clearInterval (timer s) (intervals st),
               sessions := js_delete (sessions st) code\<rparr>)) (X - {code}) c s'"
      using c so [OF c(2)] kept [OF c(1)] by (auto simp: session_ok_def)
  qed
qed

lemma performShuffle_timers_ok:
  assumes "timers_ok X st" "performShuffle rnd st code = Inr (st', out)"
  shows "timers_ok X st'"
  using performShuffle_cases [OF assms(2)] assms(1) timers_ok_links by fastforce

lemma initiateShuffleCycle_timers_ok:
  assumes ok: "timers_ok (insert code X) st"
    and run: "initiateShuffleCycle rnd st code = Inr (st', out)"
  shows "timers_ok (X - {code}) st'"
proof (cases "js_get (sessions st) code")
  case None
  then have "st' = st" using run by (simp add: initiateShuffleCycle_def)
  moreover have "timers_ok (X - {code}) st"
    using ok None by (rule_tac timers_ok_exempt) auto
  ultimately show ?thesis by simp
next
  case (Some s)
  define st1 where "st1 = (case timer s of None \<Rightarrow> st
     | Some h \<Rightarrow> st\<lparr>intervals := clearInterval (Some h) (intervals st),
                    sessions := js_set (sessions st) code (s\<lparr>timer := None\<rparr>)\<rparr>)"
  have ok1: "timers_ok (insert code X) st1"
    using ok Some timers_ok_clear [of "insert code X" st code s]
    by (auto simp: st1_def split: option.splits)
  have get1: "js_get (sessions st1) code = Some (s\<lparr>timer := None\<rparr>)"
    using Some by (auto simp: st1_def js_get_set split: option.splits)
  from run Some obtain st2 out2 where ps: "performShuffle rnd st1 code = Inr (st2, out2)"
    by (auto simp: initiateShuffleCycle_def st1_def Let_def split: sum.splits)
  from performShuffle_cases [OF ps] get1 obtain l where
    st2: "st2 = st1\<lparr>sessions := js_set (sessions st1) code (s\<lparr>timer := None, links := l\<rparr>)\<rparr>"
    by auto
  have ok2: "timers_ok (insert code X) st2" using ok1 ps by (rule performShuffle_timers_ok)
  have get2: "js_get (sessions st2) code = Some (s\<lparr>timer := None, links := l\<rparr>)"
    by (simp add: st2 js_get_set)
  show ?thesis
  proof (cases "2 < length (js_keys (participants s))")
    case True
    then have "st' = st2\<lparr>intervals := intervals st2 @ [(next_timer st2, code)],
               sessions := js_set (sessions st2) code
                 (s\<lparr>timer := None, links := l, timer := Some (next_timer st2)\<rparr>),
               next_timer := Suc (next_timer st2)\<rparr>"
      using run Some ps get2
      by (simp add: initiateShuffleCycle_def st1_def [symmetric] Let_def)
    moreover have "timers_ok (X - {code})
        (st2\<lparr>intervals := intervals st2 @ [(next_timer st2, code)],
               sessions := js_set (sessions st2) code
                 ((s\<lparr>timer := None, links := l\<rparr>)\<lparr>timer := Some (next_timer st2)\<rparr>),
               next_timer := Suc (next_timer st2)\<rparr>)"
      using ok2 get2 True by (intro timers_ok_start) simp_all
    ultimately show ?thesis by simp
  next
    case False
    then have "st' = st2"
      using run Some ps get2
      by (simp add: initiateShuffleCycle_def st1_def [symmetric] Let_def)
    moreover have "timers_ok (X - {code}) st2"
      using ok2 get2 False by (rule_tac timers_ok_exempt) auto
    ultimately show ?thesis by simp
  qed
qed

lemma joinSession_timers_ok:
  assumes ok: "timers_ok {} st"
    and run: "joinSession rnd st wsid payload = Inr (st', out)"
  shows "timers_ok {} st'"
proof -
  from run obtain code participantName key where
    key: "ToString code = Some key"
    and np: "\<not> (js_get (sessions st) key = None \<and> key \<in> set object_prototype_keys)"
    and f1: "js_get_prop payload ''sessionCode'' = Some code"
    and f2: "js_get_prop payload ''participantName'' = Some participantName"
    by (auto simp: joinSession_def split: option.splits if_splits)
  define session where "session = (case js_get (sessions st) key of
       None \<Rightarrow> \<lparr>participants = [], links = [], timer = None\<rparr> | Some s \<Rightarrow> s)"
  define ps' where "ps' = js_set (participants session) wsid \<lparr>name = participantName, socket = wsid\<rparr>"
  define st1 where "st1 = st\<lparr>sessions := js_set (sessions st) key (session\<lparr>participants := ps'\<rparr>),
       sockets := (sockets st)(wsid := (sockets st wsid)\<lparr>sessionCode := code\<rparr>)\<rparr>"
  have dps: "distinct (js_keys (participants session))"
    using ok by (auto simp: session_def timers_ok_def session_ok_def split: option.splits)
  then have dps': "distinct (js_keys ps')" by (simp add: ps'_def distinct_js_set)
  have ok1: "timers_ok {key} st1"
  proof (cases "js_get (sessions st) key")
    case None
    then have "session\<lparr>participants := ps'\<rparr> = \<lparr>participants = ps', links = [], timer = None\<rparr>"
      by (simp add: session_def)
    then show ?thesis
      using timers_ok_new_session [OF ok None dps', of "[]"] by (simp add: st1_def)
  next
    case (Some s)
    then have "session = s" by (simp add: session_def)
    then show ?thesis
      using timers_ok_participants [OF ok Some dps'] by (simp add: st1_def)
  qed
  have get1: "js_get (sessions st1) key = Some (session\<lparr>participants := ps'\<rparr>)"
    by (simp add: st1_def js_get_set)
  have result: "(2 \<le> length ps' \<and> (\<exists>out2. initiateShuffleCycle rnd st1 key = Inr (st', out2)))
      \<or> (\<not> 2 \<le> length ps' \<and> st' = st1)"
    using run key np f1 f2
    by (auto simp: joinSession_def Let_def session_def [symmetric] ps'_def [symmetric]
        st1_def [symmetric] split: option.splits if_splits sum.splits)
  then show ?thesis
  proof
    assume "2 \<le> length ps' \<and> (\<exists>out2. initiateShuffleCycle rnd st1 key = Inr (st', out2))"
    then obtain out2 where "initiateShuffleCycle rnd st1 key = Inr (st', out2)" by blast
    with ok1 show ?thesis using initiateShuffleCycle_timers_ok [of key "{}" st1 rnd st' out2] by simp
  next
    assume small: "\<not> 2 \<le> length ps' \<and> st' = st1"
    have "length (participants session) \<le> length ps'"
      unfolding ps'_def by (rule length_js_set_ge)
    with small have len: "length (participants session) \<le> 2" by simp
    have "timer session = None"
    proof (cases "js_get (sessions st) key")
      case None
      then show ?thesis by (simp add: session_def)
    next
      case (Some s)
      then have "session = s" by (simp add: session_def)
      with ok Some len show ?thesis by (auto simp: timers_ok_def session_ok_def)
    qed
    then have "timers_ok {} st1"
      using ok1 get1 small by (rule_tac timers_ok_exempt) auto
    with small show ?thesis by simp
  qed
qed

lemma on_message_timers_ok:
  assumes "timers_ok {} st" "on_message rnd st wsid message = Inr (st', out)"
  shows "timers_ok {} st'"
proof -
  from assms(2) have "st' = st \<or> (\<exists>payload. joinSession rnd st wsid payload = Inr (st', out))"
    by (auto simp: on_message_def webrtc_signal_def
        split: raw_message.splits option.splits if_splits)
  with assms(1) show ?thesis using joinSession_timers_ok by blast
qed

lemma on_close_timers_ok:
  assumes ok: "timers_ok {} st"
    and run: "on_close rnd st wsid = Inr (st', out)"
  shows "timers_ok {} st'"
proof (cases "find (\<lambda>(code, s). js_get (participants s) wsid \<noteq> None) (sessions st)")
  case None
  then have "st' = st" using run by (simp add: on_close_def)
  with ok show ?thesis by simp
next
  case (Some cs)
  obtain code session where cs: "cs = (code, session)" by (cases cs)
  have dk: "distinct (js_keys (sessions st))" using ok by (simp add: timers_ok_def)
  from find_session [OF Some [unfolded cs] dk]
  have get: "js_get (sessions st) code = Some session"
    and mem: "wsid \<in> set (js_keys (participants session))" by simp_all
  have sok: "session_ok (intervals st) {} code session"
    using ok get by (simp add: timers_ok_def)
  define ps' where "ps' = js_delete (participants session) wsid"
  define st1 where "st1 = st\<lparr>sessions := js_set (sessions st) code (session\<lparr>participants := ps'\<rparr>)\<rparr>"
  have dps': "distinct (js_keys ps')"
    using sok by (simp add: ps'_def js_keys_delete session_ok_def)
  have len: "Suc (length ps') = length (participants session)"
    unfolding ps'_def using sok mem by (intro length_delete_present) (simp_all add: session_ok_def)
  have ok1: "timers_ok {code} st1"
    using timers_ok_participants [OF ok get dps'] by (simp add: st1_def)
  have get1: "js_get (sessions st1) code = Some (session\<lparr>participants := ps'\<rparr>)"
    by (simp add: st1_def js_get_set)
  consider (empty) "length ps' = 0" | (one) "length ps' = 1" | (more) "1 < length ps'"
    by linarith
  then show ?thesis
  proof cases
    case empty
    then have "st' = st1\<lparr>intervals := clearInterval (timer (session\<lparr>participants := ps'\<rparr>)) (intervals st1),
                 sessions := js_delete (sessions st1) code\<rparr>"
      using run Some cs unfolding st1_def ps'_def
      by (auto simp: on_close_def Let_def)
    moreover have "timers_ok ({code} - {code})
        (st1\<lparr>intervals := clearInterval (timer (session\<lparr>participants := ps'\<rparr>)) (intervals st1),
                 sessions := js_delete (sessions st1) code\<rparr>)"
      using ok1 get1 by (rule timers_ok_delete)
    ultimately show ?thesis by simp
  next
    case one
    then have "ps' \<noteq> []" by auto
    with one have "st' = st1"
      using run Some cs unfolding st1_def ps'_def
      by (auto simp: on_close_def Let_def)
    moreover have "timer session = None"
      using sok len one by (simp add: session_ok_def)
    then have "timers_ok {} st1"
      using ok1 get1 one by (rule_tac timers_ok_exempt) auto
    ultimately show ?thesis by simp
  next
    case more
    then have "ps' \<noteq> []" by auto
    with more obtain out2 where "initiateShuffleCycle rnd st1 code = Inr (st', out2)"
      using run Some cs unfolding st1_def ps'_def
      by (auto simp: on_close_def Let_def split: sum.splits)
    with ok1 show ?thesis
      using initiateShuffleCycle_timers_ok [of code "{}" st1 rnd st' out2] by simp
  qed
qed

lemma step_timers_ok:
  assumes "timers_ok {} st" "step st e = Inr (st', out)"
  shows "timers_ok {} st'"
proof (cases e)
  case (Connection wsid)
  with assms show ?thesis by auto
next
  case (Message wsid message rnd)
  with assms show ?thesis using on_message_timers_ok by simp
next
  case (Closing wsid)
  with assms show ?thesis by (auto simp: set_readyState_def)
next
  case (Close wsid rnd)
  with assms show ?thesis
    using on_close_timers_ok [of "set_readyState st wsid CLOSED" rnd wsid st' out]
    by (simp add: set_readyState_def)
next
  case (IntervalFires h)
  with assms show ?thesis by (auto simp: on_interval_def split: option.splits)
next
  case (TimeoutFires i rnd)
  show ?thesis
  proof (cases "i < length (timeouts st)")
    case True
    let ?st = "st\<lparr>timeouts := take i (timeouts st) @ drop (Suc i) (timeouts st)\<rparr>"
    have "performShuffle rnd ?st (snd (timeouts st ! i)) = Inr (st', out)"
      using assms(2) TimeoutFires True by (simp add: on_timeout_def)
    moreover have "timers_ok {} ?st" using assms(1) by simp
    ultimately show ?thesis using performShuffle_timers_ok by blast
  next
    case False
    then show ?thesis using assms TimeoutFires by (simp add: on_timeout_def)
  qed
qed

lemma run_timers_ok:
  "timers_ok {} st \<Longrightarrow> run st es = Inr (st', out) \<Longrightarrow> timers_ok {} st'"
proof (induction es arbitrary: st out)
  case Nil
  then show ?case by simp
next
  case (Cons e es)
  from Cons.prems(2) obtain st1 out1 out2 where
    "step st e = Inr (st1, out1)" "run st1 es = Inr (st', out2)"
    by (auto split: sum.splits)
  then show ?case using Cons.IH Cons.prems(1) step_timers_ok by blast
qed

lemma reachable_timers_ok: "reachable st \<Longrightarrow> timers_ok {} st"
  unfolding reachable_def using run_timers_ok timers_ok_init by blast

lemma at_most_one_interval:
  assumes "timers_ok X st"
  shows "length (filter (\<lambda>(h, c). c = code) (intervals st)) \<le> 1"
proof -
  have d: "distinct (map fst (intervals st))" using assms by (simp add: timers_ok_def)
  have iv: "\<And>h c. (h, c) \<in> set (intervals st) \<Longrightarrow>
      (\<exists>s. js_get (sessions st) c = Some s \<and> timer s = Some h)"
    using assms by (auto simp: timers_ok_def)
  let ?f = "filter (\<lambda>(h, c). c = code) (intervals st)"
  have df: "distinct ?f" using d by (simp add: distinct_map distinct_filter)
  have "\<And>x y. x \<in> set ?f \<Longrightarrow> y \<in> set ?f \<Longrightarrow> x = y"
  proof -
    fix x y assume "x \<in> set ?f" "y \<in> set ?f"
    then obtain h1 h2 where x: "x = (h1, code)" "(h1, code) \<in> set (intervals st)"
      and y: "y = (h2, code)" "(h2, code) \<in> set (intervals st)" by auto
    from iv [OF x(2)] iv [OF y(2)] have "h1 = h2" by auto
    with x y show "x = y" by simp
  qed
  then have "card (set ?f) \<le> 1" by (metis card_le_Suc0_iff_eq List.finite_set One_nat_def)
  moreover have "length ?f = card (set ?f)" using df by (rule distinct_card [symmetric])
  ultimately show ?thesis by linarith
qed

section \<open>The relay\<close>



lemma relay_without_session:
  assumes "ToString (sessionCode (sockets st wsid)) = Some key"
    and "js_get (sessions st) key = None" "key \<notin> set object_prototype_keys"
  shows "on_message rnd st wsid (signal_msg to P) = Inr (st, [])"
  using assms by (simp add: on_message_def webrtc_signal_def signal_msg_def)

text \<open>
  The relay does not look at \<^verbatim>\<open>readyState\<close>: it calls \<^verbatim>\<open>send\<close> on a closing socket,
  which \<^verbatim>\<open>broadcastToSession\<close> leaves out.
\<close>

lemma relay_calls_send_on_closing_socket:
  "(case run init_state
      [Connection ws_a, Message ws_a (join_msg (JStr ''X'') (JStr ''Al'')) rnd_zero,
       Connection ws_b, Message ws_b (join_msg (JStr ''X'') (JStr ''Bo'')) rnd_zero,
       Closing ws_b] of
     Inl e \<Rightarrow> False
   | Inr (st, out) \<Rightarrow>
       readyState (sockets st ws_b) = CLOSING
       \<and> on_message rnd_zero st ws_a (signal_msg (JStr ws_b) (JStr ''offer''))
           = Inr (st, [(ws_b, WebrtcSignal ws_a (JStr ''offer''))])
       \<and> broadcastToSession st ''X'' (ShuffleCountdown 10) = [(ws_a, ShuffleCountdown 10)])"
  by (simp add: message_defs model_defs ws_facts)

section \<open>What is sent\<close>

lemma broadcast_present:
  "js_get (sessions st) code = Some s \<Longrightarrow>
   broadcastToSession st code m
     = map (\<lambda>p. (socket p, m))
         (filter (\<lambda>p. readyState (sockets st (socket p)) = OPEN) (js_values (participants s)))"
proof -
  have "concat (map (\<lambda>p. if readyState (sockets st (socket p)) = OPEN
                           then [(socket p, m)] else []) ps)
        = map (\<lambda>p. (socket p, m))
            (filter (\<lambda>p. readyState (sockets st (socket p)) = OPEN) ps)" for ps
    by (induction ps) simp_all
  then show "js_get (sessions st) code = Some s \<Longrightarrow> ?thesis"
    by (simp add: broadcastToSession_def)
qed

lemma distinct_links_upto: "distinct (js_keys (links_upto p m))"
  by (induction m) (simp_all add: links_upto_def distinct_js_set)

lemma distinct_build_links: "distinct (js_keys (build_links p))"
  by (simp add: build_links_upto distinct_links_upto)

lemma notify_exact:
  "notify socks ps lnk = Inr out \<Longrightarrow>
   out = concat (map (\<lambda>(A, B).
           case js_get ps A of None \<Rightarrow> []
           | Some pA \<Rightarrow>
              (case js_get ps B of None \<Rightarrow> []
               | Some pB \<Rightarrow>
                   if readyState (socks (socket pA)) = OPEN
                   then [(socket pA, Shuffle B (name pB) (polite_flag A B))] else [])) lnk)"
proof (induction lnk arbitrary: out)
  case Nil
  then show ?case by simp
next
  case (Cons ft lnk)
  obtain f t where ft: "ft = (f, t)" by (cases ft)
  from notify_Cons [OF Cons.prems [unfolded ft]] obtain pf pt rest where
    pf: "js_get ps f = Some pf" and pt: "js_get ps t = Some pt"
    and rest: "notify socks ps lnk = Inr rest"
    and out: "out = (if readyState (socks (socket pf)) = OPEN
                     then [(socket pf, Shuffle t (name pt) (polite_flag f t))] else []) @ rest"
    by blast
  from Cons.IH [OF rest] show ?case
    unfolding out ft using pf pt by simp
qed

lemma performShuffle_result:
  assumes "js_get (sessions st) code = Some s"
    and "distinct (js_keys (participants s))"
    and "\<forall>k. 0 \<le> rnd k \<and> rnd k < 1"
  shows "\<exists>out p lnk.
           performShuffle rnd st code
             = Inr (st\<lparr>sessions := js_set (sessions st) code (s\<lparr>links := lnk\<rparr>)\<rparr>, out)
         \<and> notify (sockets st) (participants s) lnk = Inr out
         \<and> mset p = mset (js_keys (participants s))
         \<and> links_form_cycle lnk p"
proof -
  let ?ids = "js_keys (participants s)"
  let ?p = "shuffle_loop rnd 0 (length ?ids - 1) ?ids"
  let ?lnk = "build_links ?p"
  have mp: "mset ?p = mset ?ids" using assms(3) by (rule shuffle_all_mset)
  then have sp: "set ?p = set ?ids" by (rule mset_eq_setD)
  have dp: "distinct ?p" using mset_eq_imp_distinct_iff [OF mp] assms(2) by simp
  have cyc: "links_form_cycle ?lnk ?p" using dp by (rule build_links_cycle)
  have "\<forall>(f, t) \<in> set ?lnk. f \<in> set ?ids \<and> t \<in> set ?ids"
    using cycle_values [OF cyc] sp by auto
  then obtain out where out: "notify (sockets st) (participants s) ?lnk = Inr out"
    using notify_ok by blast
  have "performShuffle rnd st code
          = Inr (st\<lparr>sessions := js_set (sessions st) code (s\<lparr>links := ?lnk\<rparr>)\<rparr>, out)"
    using assms(1) out by (simp add: performShuffle_def Let_def)
  with out mp cyc show ?thesis by blast
qed

lemma two_links:
  assumes "length lnk = 2" "e1 \<in> set lnk" "e2 \<in> set lnk" "e1 \<noteq> e2"
  shows "lnk = [e1, e2] \<or> lnk = [e2, e1]"
proof -
  from assms(1) obtain a b where "lnk = [a, b]"
    by (cases lnk; cases "tl lnk") auto
  with assms(2-4) show ?thesis by auto
qed

section \<open>The example runs\<close>

lemma rnd_half_range: "\<forall>k. 0 \<le> rnd_half k \<and> rnd_half k < 1"
  by (simp add: rnd_half_def)

lemma two_join_runs:
  "\<exists>st out s. run init_state two_join = Inr (st, out)
     \<and> js_get (sessions st) ''X'' = Some s
     \<and> js_keys (participants s) = [ws_a, ws_b]"
  by (simp add: two_join_def message_defs model_defs ws_facts)

lemma three_join_runs:
  "\<exists>st out s. run init_state three_join = Inr (st, out)
     \<and> js_get (sessions st) ''X'' = Some s
     \<and> js_keys (participants s) = [ws_a, ws_b, ws_c]
     \<and> intervals st = [(0, ''X'')]"
  by (simp add: three_join_def two_join_def message_defs model_defs ws_facts)

lemma before_last_leave_runs:
  "\<exists>st out session. run init_state before_last_leave = Inr (st, out)
     \<and> find (\<lambda>(code, s). js_get (participants s) ws_a \<noteq> None) (sessions st)
          = Some (''X'', session)
     \<and> js_keys (participants session) = [ws_a]
     \<and> timeouts st = [(countdown_delay_ms, ''X'')]"
  by (simp add: before_last_leave_def three_join_def two_join_def message_defs model_defs ws_facts)

lemma state_X1_timer_ok: "timers_ok UNIV state_X1_timer"
  by (simp add: timers_ok_def session_ok_def state_X1_timer_def)

lemma three_join_state:
  "\<exists>st out s. run init_state three_join = Inr (st, out)
     \<and> js_get (sessions st) ''X'' = Some s
     \<and> participants s = participants session_X3
     \<and> readyState (sockets st ws_a) = OPEN
     \<and> readyState (sockets st ws_b) = OPEN
     \<and> readyState (sockets st ws_c) = OPEN"
  by (simp add: three_join_def two_join_def session_X3_def message_defs model_defs ws_facts)

section \<open>The claims\<close>

text \<open>
  C1. In a session of \<open>n \<ge> 2\<close> participants, one call of \<^verbatim>\<open>performShuffle\<close> returns
  and leaves exactly \<open>n\<close> links, over exactly the identities of the participants;
  they are the steps of one cycle through a permutation \<open>p\<close> of the identities, and
  no participant is linked to itself. The participants are an object (distinct keys)
  and \<^verbatim>\<open>Math.random\<close> stays in its range.
\<close>

theorem shuffle_makes_one_cycle:
  assumes "js_get (sessions st) code = Some session"
    and "distinct (js_keys (participants session))"
    and "2 \<le> length (js_keys (participants session))"
    and "\<forall>k. 0 \<le> rnd k \<and> rnd k < 1"
  shows "\<exists>st' out session' p.
           performShuffle rnd st code = Inr (st', out)
         \<and> js_get (sessions st') code = Some session'
         \<and> participants session' = participants session
         \<and> length (links session') = length (js_keys (participants session))
         \<and> mset p = mset (js_keys (participants session))
         \<and> links_form_cycle (links session') p
         \<and> (\<forall>(a, b) \<in> set (links session'). a \<noteq> b)"
proof -
  let ?ids = "js_keys (participants session)"
  let ?p = "shuffle_loop rnd 0 (length ?ids - 1) ?ids"
  let ?lnk = "build_links ?p"
  have mp: "mset ?p = mset ?ids" using assms(4) by (rule shuffle_all_mset)
  then have sp: "set ?p = set ?ids" by (rule mset_eq_setD)
  have lp: "length ?p = length ?ids" using mp by (rule mset_eq_length)
  have dp: "distinct ?p" using mset_eq_imp_distinct_iff [OF mp] assms(2) by simp
  have cyc: "links_form_cycle ?lnk ?p" using dp by (rule build_links_cycle)
  have "\<forall>(f, t) \<in> set ?lnk. f \<in> set ?ids \<and> t \<in> set ?ids"
    using cycle_values [OF cyc] sp by auto
  then obtain out where out: "notify (sockets st) (participants session) ?lnk = Inr out"
    using notify_ok by blast
  let ?st' = "st\<lparr>sessions := js_set (sessions st) code (session\<lparr>links := ?lnk\<rparr>)\<rparr>"
  have run: "performShuffle rnd st code = Inr (?st', out)"
    using assms(1) out by (simp add: performShuffle_def Let_def)
  have get: "js_get (sessions ?st') code = Some (session\<lparr>links := ?lnk\<rparr>)"
    by (simp add: js_get_set)
  have len: "length ?lnk = length ?ids" using cyc lp by (simp add: links_form_cycle_def)
  have noself: "\<forall>(a, b) \<in> set ?lnk. a \<noteq> b"
    using cycle_no_self_link [OF cyc] assms(3) lp by auto
  have "performShuffle rnd st code = Inr (?st', out)
         \<and> js_get (sessions ?st') code = Some (session\<lparr>links := ?lnk\<rparr>)
         \<and> participants (session\<lparr>links := ?lnk\<rparr>) = participants session
         \<and> length (links (session\<lparr>links := ?lnk\<rparr>)) = length ?ids
         \<and> mset ?p = mset ?ids
         \<and> links_form_cycle (links (session\<lparr>links := ?lnk\<rparr>)) ?p
         \<and> (\<forall>(a, b) \<in> set (links (session\<lparr>links := ?lnk\<rparr>)). a \<noteq> b)"
    using run get mp cyc len noself by simp
  then show ?thesis by blast
qed

text \<open>Three participants, every draw one half.\<close>

theorem shuffle_makes_one_cycle_witness:
  "\<exists>st' out session' p.
     performShuffle rnd_half state_X3 ''X'' = Inr (st', out)
   \<and> js_get (sessions st') ''X'' = Some session'
   \<and> participants session' = participants session_X3
   \<and> length (links session') = length (js_keys (participants session_X3))
   \<and> mset p = mset (js_keys (participants session_X3))
   \<and> links_form_cycle (links session') p
   \<and> (\<forall>(a, b) \<in> set (links session'). a \<noteq> b)"
proof -
  have h1: "js_get (sessions state_X3) ''X'' = Some session_X3"
    by (simp add: state_X3_def)
  have h2: "distinct (js_keys (participants session_X3))"
    by (simp add: session_X3_def ws_facts)
  have h3: "2 \<le> length (js_keys (participants session_X3))"
    by (simp add: session_X3_def)
  from shuffle_makes_one_cycle [OF h1 h2 h3 rnd_half_range]
  show ?thesis .
qed

text \<open>
  C2, as stated, fails: the flag is \<^verbatim>\<open>fromId > toId\<close>, so the two orders of a pair
  get different flags and it is no function of the unordered pair.
\<close>

theorem polite_flag_not_symmetric:
  "\<not> (\<forall>A B. A \<noteq> B \<longrightarrow> polite_flag A B = polite_flag B A)"
proof
  assume "\<forall>A B. A \<noteq> B \<longrightarrow> polite_flag A B = polite_flag B A"
  then have "ws_a \<noteq> ws_b \<longrightarrow> polite_flag ws_a ws_b = polite_flag ws_b ws_a" by blast
  then show False by (simp add: polite_flag_def ws_facts)
qed

text \<open>
  C2, amended. In a session whose entries refer each to the connection it is keyed
  by, the links a shuffle leaves have distinct keys, and what it sends is, link by
  link in their order, exactly this: for the link from A to B, when A's connection is
  open, one message to A that names B, B's name and \<open>polite = (A > B)\<close>; when it
  is not open, nothing. The flag is a function of the ordered pair, and exchanging
  the two sides of a pair of distinct identities negates it. In a session of two
  whose connections are open, with \<^verbatim>\<open>Math.random\<close> in its range and A the smaller
  identity, the messages are one to A naming B with \<^verbatim>\<open>polite: false\<close> and one to
  B naming A with \<^verbatim>\<open>polite: true\<close>, and no other: exactly one of the two is told
  \<^verbatim>\<open>polite: true\<close>.
\<close>

theorem polite_is_per_directed_edge:
  assumes run: "performShuffle rnd st code = Inr (st', out)"
    and get: "js_get (sessions st) code = Some session"
    and sock: "\<forall>(k, p) \<in> set (participants session). socket p = k"
  shows "\<exists>session'. js_get (sessions st') code = Some session'
       \<and> distinct (js_keys (links session'))
       \<and> (\<forall>(A, B) \<in> set (links session'). js_get (participants session) B \<noteq> None)
       \<and> out = concat (map (\<lambda>(A, B).
                   case js_get (participants session) B of None \<Rightarrow> []
                   | Some pB \<Rightarrow>
                       if readyState (sockets st A) = OPEN
                       then [(A, Shuffle B (name pB) (polite_flag A B))] else [])
                 (links session'))
       \<and> (\<forall>A B. polite_flag A B = (A > B))
       \<and> (\<forall>A B. A \<noteq> B \<longrightarrow> polite_flag B A = (\<not> polite_flag A B))
       \<and> (length (participants session) = 2 \<and> distinct (js_keys (participants session))
            \<and> (\<forall>k. 0 \<le> rnd k \<and> rnd k < 1)
            \<and> (\<forall>A \<in> set (js_keys (participants session)). readyState (sockets st A) = OPEN)
          \<longrightarrow> (\<exists>A B pA pB. A < B
                 \<and> js_get (participants session) A = Some pA
                 \<and> js_get (participants session) B = Some pB
                 \<and> mset out = {#(A, Shuffle B (name pB) False), (B, Shuffle A (name pA) True)#}))"
proof -
  let ?ps = "participants session"
  let ?ids = "js_keys ?ps"
  let ?p = "shuffle_loop rnd 0 (length ?ids - 1) ?ids"
  let ?lnk = "build_links ?p"
  let ?s' = "session\<lparr>links := ?lnk\<rparr>"
  let ?g = "\<lambda>(A, B). case js_get ?ps B of None \<Rightarrow> []
                   | Some pB \<Rightarrow>
                       if readyState (sockets st A) = OPEN
                       then [(A, Shuffle B (name pB) (polite_flag A B))] else []"
  from run get have n: "notify (sockets st) ?ps ?lnk = Inr out"
    and st': "st' = st\<lparr>sessions := js_set (sessions st) code ?s'\<rparr>"
    by (auto simp: performShuffle_def Let_def split: sum.splits)
  have get': "js_get (sessions st') code = Some ?s'" by (simp add: st' js_get_set)
  have sk: "\<And>k p. js_get ?ps k = Some p \<Longrightarrow> socket p = k"
    using sock js_get_Some_mem by fastforce
  have dl: "distinct (js_keys ?lnk)" by (rule distinct_build_links)
  have both: "\<exists>pA pB. js_get ?ps A = Some pA \<and> js_get ?ps B = Some pB \<and> socket pA = A"
    if "(A, B) \<in> set ?lnk" for A B
    using notify_complete [OF n that] sk by blast
  have known: "\<forall>(A, B) \<in> set ?lnk. js_get ?ps B \<noteq> None"
    using both by fastforce
  have exact: "out = concat (map ?g ?lnk)"
  proof -
    have eq: "map (\<lambda>(A, B).
           case js_get ?ps A of None \<Rightarrow> []
           | Some pA \<Rightarrow>
              (case js_get ?ps B of None \<Rightarrow> []
               | Some pB \<Rightarrow>
                   if readyState (sockets st (socket pA)) = OPEN
                   then [(socket pA, Shuffle B (name pB) (polite_flag A B))] else [])) ?lnk
          = map ?g ?lnk"
    proof (rule map_cong [OF refl])
      fix e assume e: "e \<in> set ?lnk"
      obtain A B where ab: "e = (A, B)" by (cases e)
      from both [of A B] e ab obtain pA pB where
        "js_get ?ps A = Some pA" "js_get ?ps B = Some pB" "socket pA = A" by blast
      then show "(case e of (A, B) \<Rightarrow>
           case js_get ?ps A of None \<Rightarrow> []
           | Some pA \<Rightarrow>
              (case js_get ?ps B of None \<Rightarrow> []
               | Some pB \<Rightarrow>
                   if readyState (sockets st (socket pA)) = OPEN
                   then [(socket pA, Shuffle B (name pB) (polite_flag A B))] else []))
          = ?g e"
        by (simp add: ab)
    qed
    show ?thesis
      by (rule trans [OF notify_exact [OF n]]) (simp only: eq)
  qed
  have pair: "\<exists>A B pA pB. A < B
                 \<and> js_get ?ps A = Some pA \<and> js_get ?ps B = Some pB
                 \<and> mset out = {#(A, Shuffle B (name pB) False), (B, Shuffle A (name pA) True)#}"
    if two: "length ?ps = 2" and dps: "distinct ?ids"
      and r: "\<forall>k. 0 \<le> rnd k \<and> rnd k < 1"
      and op: "\<forall>A \<in> set ?ids. readyState (sockets st A) = OPEN"
  proof -
    have mp: "mset ?p = mset ?ids" using r by (rule shuffle_all_mset)
    then have sp: "set ?p = set ?ids" by (rule mset_eq_setD)
    have lp: "length ?p = 2" using mset_eq_length [OF mp] two by simp
    have dp: "distinct ?p" using mset_eq_imp_distinct_iff [OF mp] dps by simp
    have cyc: "links_form_cycle ?lnk ?p" using dp by (rule build_links_cycle)
    from lp obtain x y where p: "?p = [x, y]"
      by (cases ?p; cases "tl ?p") auto
    have xy: "x \<noteq> y" using dp p by simp
    have ll: "length ?lnk = 2" using cyc lp by (simp add: links_form_cycle_def)
    have nx: "\<And>i. i < 2 \<Longrightarrow> js_get ?lnk (?p ! i) = Some (?p ! ((i + 1) mod 2))"
      using cyc lp by (simp add: links_form_cycle_def list_all_iff)
    have l1: "js_get ?lnk x = Some y" using nx [of 0] p by simp
    have l2: "js_get ?lnk y = Some x" using nx [of 1] p by simp
    have m1: "(x, y) \<in> set ?lnk" using l1 by (rule js_get_Some_mem)
    have m2: "(y, x) \<in> set ?lnk" using l2 by (rule js_get_Some_mem)
    have shape: "?lnk = [(x, y), (y, x)] \<or> ?lnk = [(y, x), (x, y)]"
      using ll m1 m2 xy by (intro two_links) auto
    have xin: "x \<in> set ?ids" and yin: "y \<in> set ?ids" using sp p by auto
    then obtain px py where px: "js_get ?ps x = Some px" and py: "js_get ?ps y = Some py"
      using js_get_None_iff [of ?ps] by (metis not_Some_eq)
    have ox: "readyState (sockets st x) = OPEN" and oy: "readyState (sockets st y) = OPEN"
      using op xin yin by auto
    have gx: "?g (x, y) = [(x, Shuffle y (name py) (polite_flag x y))]"
      using py ox by simp
    have gy: "?g (y, x) = [(y, Shuffle x (name px) (polite_flag y x))]"
      using px oy by simp
    have mo: "mset out = {#(x, Shuffle y (name py) (polite_flag x y)),
                          (y, Shuffle x (name px) (polite_flag y x))#}"
    proof -
      from shape have "out = ?g (x, y) @ ?g (y, x) \<or> out = ?g (y, x) @ ?g (x, y)"
        using exact by (metis (no_types, lifting) append_Nil2 concat.simps list.simps(8,9))
      then show ?thesis unfolding gx gy by auto
    qed
    from xy consider (lt) "x < y" | (gt) "y < x" by (meson linorder_neqE)
    then show ?thesis
    proof cases
      case lt
      then have "polite_flag x y = False" "polite_flag y x = True"
        by (auto simp: polite_flag_def)
      with mo lt px py show ?thesis by auto
    next
      case gt
      then have "polite_flag x y = True" "polite_flag y x = False"
        by (auto simp: polite_flag_def)
      with mo have "mset out = {#(y, Shuffle x (name px) False), (x, Shuffle y (name py) True)#}"
        by (simp add: add_mset_commute)
      with gt px py show ?thesis by blast
    qed
  qed
  show ?thesis
  proof (intro exI conjI)
    show "js_get (sessions st') code = Some ?s'" by (rule get')
    show "distinct (js_keys (links ?s'))" using dl by simp
    show "\<forall>(A, B) \<in> set (links ?s'). js_get ?ps B \<noteq> None" using known by simp
    show "out = concat (map ?g (links ?s'))" using exact by simp
    show "\<forall>A B. polite_flag A B = (A > B)" by (simp add: polite_flag_def)
    show "\<forall>A B. A \<noteq> B \<longrightarrow> polite_flag B A = (\<not> polite_flag A B)"
      using polite_flag_one_direction by blast
    show "length ?ps = 2 \<and> distinct ?ids \<and> (\<forall>k. 0 \<le> rnd k \<and> rnd k < 1)
            \<and> (\<forall>A \<in> set ?ids. readyState (sockets st A) = OPEN)
          \<longrightarrow> (\<exists>A B pA pB. A < B
                 \<and> js_get ?ps A = Some pA \<and> js_get ?ps B = Some pB
                 \<and> mset out = {#(A, Shuffle B (name pB) False), (B, Shuffle A (name pA) True)#})"
      using pair by blast
  qed
qed

text \<open>
  The cycle a, c, b: a is told \<^verbatim>\<open>polite: false\<close> about c, and c is told nothing
  about a. And the session of two.
\<close>

theorem polite_is_per_directed_edge_witness:
  "(\<exists>st' out session'.
      performShuffle rnd_half state_X3 ''X'' = Inr (st', out)
    \<and> js_get (sessions st') ''X'' = Some session'
    \<and> links session' = [(ws_a, ws_c), (ws_c, ws_b), (ws_b, ws_a)]
    \<and> out = [(ws_a, Shuffle ws_c (JStr ''Cy'') False),
             (ws_c, Shuffle ws_b (JStr ''Bo'') True),
             (ws_b, Shuffle ws_a (JStr ''Al'') True)])
   \<and> (\<exists>st' out. performShuffle rnd_half state_X2 ''X'' = Inr (st', out)
    \<and> mset out = {#(ws_a, Shuffle ws_b (JStr ''Bo'') False),
                   (ws_b, Shuffle ws_a (JStr ''Al'') True)#})"
proof
  have "\<exists>st' out s. performShuffle rnd_half state_X3 ''X'' = Inr (st', out)
      \<and> js_get (sessions st') ''X'' = Some s
      \<and> links s = [(ws_a, ws_c), (ws_c, ws_b), (ws_b, ws_a)]"
    by (simp add: state_X3_def session_X3_def message_defs model_defs ws_facts)
  then obtain st' out s0 where r: "performShuffle rnd_half state_X3 ''X'' = Inr (st', out)"
    and l: "js_get (sessions st') ''X'' = Some s0"
      "links s0 = [(ws_a, ws_c), (ws_c, ws_b), (ws_b, ws_a)]" by blast
  have h1: "js_get (sessions state_X3) ''X'' = Some session_X3"
    by (simp add: state_X3_def)
  have h2: "\<forall>(k, p) \<in> set (participants session_X3). socket p = k"
    by (simp add: session_X3_def)
  from polite_is_per_directed_edge [OF r h1 h2] obtain session' where
    c: "js_get (sessions st') ''X'' = Some session'"
       "out = concat (map (\<lambda>(A, B).
                   case js_get (participants session_X3) B of None \<Rightarrow> []
                   | Some pB \<Rightarrow>
                       if readyState (sockets state_X3 A) = OPEN
                       then [(A, Shuffle B (name pB) (polite_flag A B))] else [])
                 (links session'))"
    by blast
  have ls: "links session' = [(ws_a, ws_c), (ws_c, ws_b), (ws_b, ws_a)]"
    using l c(1) by simp
  have "out = [(ws_a, Shuffle ws_c (JStr ''Cy'') False),
             (ws_c, Shuffle ws_b (JStr ''Bo'') True),
             (ws_b, Shuffle ws_a (JStr ''Al'') True)]"
    unfolding c(2) ls
    by (simp add: session_X3_def state_X3_def polite_flag_def ws_facts)
  with r c(1) ls show "\<exists>st' out session'.
      performShuffle rnd_half state_X3 ''X'' = Inr (st', out)
    \<and> js_get (sessions st') ''X'' = Some session'
    \<and> links session' = [(ws_a, ws_c), (ws_c, ws_b), (ws_b, ws_a)]
    \<and> out = [(ws_a, Shuffle ws_c (JStr ''Cy'') False),
             (ws_c, Shuffle ws_b (JStr ''Bo'') True),
             (ws_b, Shuffle ws_a (JStr ''Al'') True)]" by blast
next
  have "\<exists>st' out. performShuffle rnd_half state_X2 ''X'' = Inr (st', out)"
    by (simp add: state_X2_def session_X2_def message_defs model_defs ws_facts)
  then obtain st' out where r: "performShuffle rnd_half state_X2 ''X'' = Inr (st', out)"
    by blast
  have h1: "js_get (sessions state_X2) ''X'' = Some session_X2"
    by (simp add: state_X2_def)
  have h2: "\<forall>(k, p) \<in> set (participants session_X2). socket p = k"
    by (simp add: session_X2_def)
  have h3: "length (participants session_X2) = 2 \<and> distinct (js_keys (participants session_X2))
            \<and> (\<forall>k. 0 \<le> rnd_half k \<and> rnd_half k < 1)
            \<and> (\<forall>A \<in> set (js_keys (participants session_X2)).
                  readyState (sockets state_X2 A) = OPEN)"
    by (simp add: session_X2_def state_X2_def ws_facts rnd_half_def)
  from polite_is_per_directed_edge [OF r h1 h2] h3 obtain A B pA pB where
    ab: "A < B" "js_get (participants session_X2) A = Some pA"
        "js_get (participants session_X2) B = Some pB"
        "mset out = {#(A, Shuffle B (name pB) False), (B, Shuffle A (name pA) True)#}"
    by blast
  from ab(1-3) have "A = ws_a \<and> B = ws_b \<and> pA = \<lparr>name = JStr ''Al'', socket = ws_a\<rparr>
      \<and> pB = \<lparr>name = JStr ''Bo'', socket = ws_b\<rparr>"
    using ws_order by (auto simp: session_X2_def split: if_splits)
  with ab(4) have "mset out = {#(ws_a, Shuffle ws_b (JStr ''Bo'') False),
                   (ws_b, Shuffle ws_a (JStr ''Al'') True)#}" by simp
  with r show "\<exists>st' out. performShuffle rnd_half state_X2 ''X'' = Inr (st', out)
    \<and> mset out = {#(ws_a, Shuffle ws_b (JStr ''Bo'') False),
                   (ws_b, Shuffle ws_a (JStr ''Al'') True)#}" by blast
qed

text \<open>
  C3, as stated, fails: a message that does not parse makes the handler throw, and a
  join without a session code creates the session named \<^verbatim>\<open>undefined\<close>.
\<close>

theorem malformed_messages_throw_or_join:
  "on_message rnd_zero init_state ws_a Unparseable = Inl SyntaxError
   \<and> (case on_message rnd_zero init_state ws_a
             (Parsed (JObj [(''type'', JStr ''joinSession''),
                            (''payload'', JObj [(''participantName'', JStr ''Al'')])])) of
        Inl e \<Rightarrow> False
      | Inr (st, out) \<Rightarrow>
          map (\<lambda>(code, s). (code, js_keys (participants s))) (sessions st)
            = [(''undefined'', [ws_a])])"
  by (simp add: message_defs model_defs ws_facts)

text \<open>
  C3, amended. A message that does not parse makes the handler throw a SyntaxError,
  and since nothing catches it the run ends there: whatever events follow, none is
  handled. A message that parses to a value whose \<^verbatim>\<open>type\<close> can be read (any
  value but \<^verbatim>\<open>null\<close>) and is neither \<^verbatim>\<open>joinSession\<close> nor \<^verbatim>\<open>webrtc-signal\<close>
  changes nothing and sends nothing. A join whose payload lacks the session code is
  not rejected: when the handler returns, the connection is a participant of the
  session named \<^verbatim>\<open>undefined\<close>; one that lacks the name is entered with the name
  \<^verbatim>\<open>undefined\<close>. Whenever the handler returns, the \<^verbatim>\<open>readyState\<close> of every
  connection is what it was.
\<close>

theorem malformed_message_throws_or_is_processed:
  "on_message rnd st wsid Unparseable = Inl SyntaxError
   \<and> (\<forall>data ty. js_get_prop data ''type'' = Some ty \<and> ty \<noteq> JStr ''joinSession''
         \<and> ty \<noteq> JStr ''webrtc-signal'' \<longrightarrow>
         on_message rnd st wsid (Parsed data) = Inr (st, []))
   \<and> (\<forall>fields st' out.
         map_of fields ''sessionCode'' = None
         \<and> on_message rnd st wsid
             (Parsed (JObj [(''type'', JStr ''joinSession''), (''payload'', JObj fields)]))
             = Inr (st', out) \<longrightarrow>
         (\<exists>s. js_get (sessions st') ''undefined'' = Some s
            \<and> wsid \<in> set (js_keys (participants s))
            \<and> sessionCode (sockets st' wsid) = JUndefined))
   \<and> (\<forall>fields code key st' out.
         map_of fields ''sessionCode'' = Some code \<and> ToString code = Some key
         \<and> map_of fields ''participantName'' = None
         \<and> on_message rnd st wsid
             (Parsed (JObj [(''type'', JStr ''joinSession''), (''payload'', JObj fields)]))
             = Inr (st', out) \<longrightarrow>
         (\<exists>s. js_get (sessions st') key = Some s
            \<and> js_get (participants s) wsid = Some \<lparr>name = JUndefined, socket = wsid\<rparr>))
   \<and> (\<forall>message st' out w.
         on_message rnd st wsid message = Inr (st', out) \<longrightarrow>
         readyState (sockets st' w) = readyState (sockets st w))
   \<and> (\<forall>es. run st (Message wsid Unparseable rnd # es) = Inl SyntaxError)"
proof (intro conjI allI impI)
  show "on_message rnd st wsid Unparseable = Inl SyntaxError"
    by (simp add: on_message_def)
next
  fix data ty
  assume "js_get_prop data ''type'' = Some ty \<and> ty \<noteq> JStr ''joinSession''
         \<and> ty \<noteq> JStr ''webrtc-signal''"
  then show "on_message rnd st wsid (Parsed data) = Inr (st, [])"
    by (simp add: on_message_def)
next
  fix fields st' out
  assume a: "map_of fields ''sessionCode'' = None
         \<and> on_message rnd st wsid
             (Parsed (JObj [(''type'', JStr ''joinSession''), (''payload'', JObj fields)]))
             = Inr (st', out)"
  then have run: "joinSession rnd st wsid (JObj fields) = Inr (st', out)"
    by (simp add: on_message_def)
  have f1: "js_get_prop (JObj fields) ''sessionCode'' = Some JUndefined" using a by simp
  obtain nm where f2: "js_get_prop (JObj fields) ''participantName'' = Some nm" by simp
  from joinSession_registers [OF run f1 f2] 
  show "\<exists>s. js_get (sessions st') ''undefined'' = Some s
            \<and> wsid \<in> set (js_keys (participants s))
            \<and> sessionCode (sockets st' wsid) = JUndefined"
    using js_get_Some_keys by fastforce
next
  fix fields code key st' out
  assume a: "map_of fields ''sessionCode'' = Some code \<and> ToString code = Some key
         \<and> map_of fields ''participantName'' = None
         \<and> on_message rnd st wsid
             (Parsed (JObj [(''type'', JStr ''joinSession''), (''payload'', JObj fields)]))
             = Inr (st', out)"
  then have run: "joinSession rnd st wsid (JObj fields) = Inr (st', out)"
    by (simp add: on_message_def)
  have f1: "js_get_prop (JObj fields) ''sessionCode'' = Some code" using a by simp
  have f2: "js_get_prop (JObj fields) ''participantName'' = Some JUndefined" using a by simp
  from joinSession_registers [OF run f1 f2] a
  show "\<exists>s. js_get (sessions st') key = Some s
            \<and> js_get (participants s) wsid = Some \<lparr>name = JUndefined, socket = wsid\<rparr>"
    by auto
next
  fix message st' out w
  assume "on_message rnd st wsid message = Inr (st', out)"
  then show "readyState (sockets st' w) = readyState (sockets st w)"
    by (rule on_message_readyState)
next
  fix es
  show "run st (Message wsid Unparseable rnd # es) = Inl SyntaxError"
    by (simp add: on_message_def)
qed

text \<open>On the initial state, for the first connection.\<close>

theorem malformed_message_witness:
  "on_message rnd_zero init_state ws_a Unparseable = Inl SyntaxError
   \<and> on_message rnd_zero init_state ws_a (Parsed (JObj [(''type'', JStr ''ping'')]))
       = Inr (init_state, [])
   \<and> (\<exists>st' out s.
         on_message rnd_zero init_state ws_a
           (Parsed (JObj [(''type'', JStr ''joinSession''),
                          (''payload'', JObj [(''participantName'', JStr ''Al'')])]))
           = Inr (st', out)
       \<and> js_get (sessions st') ''undefined'' = Some s
       \<and> ws_a \<in> set (js_keys (participants s))
       \<and> sessionCode (sockets st' ws_a) = JUndefined
       \<and> readyState (sockets st' ws_a) = readyState (sockets init_state ws_a))
   \<and> run init_state [Message ws_a Unparseable rnd_zero, Connection ws_b] = Inl SyntaxError"
proof -
  note t = malformed_message_throws_or_is_processed [of rnd_zero init_state ws_a]
  have a: "on_message rnd_zero init_state ws_a Unparseable = Inl SyntaxError"
    using t by blast
  have b: "on_message rnd_zero init_state ws_a (Parsed (JObj [(''type'', JStr ''ping'')]))
       = Inr (init_state, [])"
    using t [THEN conjunct2, THEN conjunct1, rule_format,
             of "JObj [(''type'', JStr ''ping'')]" "JStr ''ping''"]
    by simp
  have "\<exists>st' out. on_message rnd_zero init_state ws_a
           (Parsed (JObj [(''type'', JStr ''joinSession''),
                          (''payload'', JObj [(''participantName'', JStr ''Al'')])]))
           = Inr (st', out)"
    by (simp add: message_defs model_defs ws_facts)
  then obtain st' out where r: "on_message rnd_zero init_state ws_a
           (Parsed (JObj [(''type'', JStr ''joinSession''),
                          (''payload'', JObj [(''participantName'', JStr ''Al'')])]))
           = Inr (st', out)" by blast
  have m: "map_of [(''participantName'', JStr ''Al'')] ''sessionCode'' = None" by simp
  from t [THEN conjunct2, THEN conjunct2, THEN conjunct1, rule_format,
          of "[(''participantName'', JStr ''Al'')]" st' out] m r
  obtain s where s: "js_get (sessions st') ''undefined'' = Some s"
    "ws_a \<in> set (js_keys (participants s))" "sessionCode (sockets st' ws_a) = JUndefined"
    by blast
  have "readyState (sockets st' ws_a) = readyState (sockets init_state ws_a)"
    using t r by blast
  moreover have "run init_state [Message ws_a Unparseable rnd_zero, Connection ws_b]
      = Inl SyntaxError"
    using t by blast
  ultimately show ?thesis using a b r s by blast
qed

text \<open>
  C4. A shuffle of a session with one participant is not a no-op. The call sites of
  \<^verbatim>\<open>initiateShuffleCycle\<close> test for two participants, the delayed callback of the
  interval timer does not, and \<^verbatim>\<open>performShuffle\<close> has no test of its own: three
  join, the interval fires, two leave within the delay, the timeout fires. The one who
  stayed is linked to itself and is sent a \<^verbatim>\<open>shuffle\<close> naming itself as partner.
\<close>

theorem shuffle_of_one_participant_links_it_to_itself:
  "(case run init_state
      [Connection ws_a, Message ws_a (join_msg (JStr ''X'') (JStr ''Al'')) rnd_zero,
       Connection ws_b, Message ws_b (join_msg (JStr ''X'') (JStr ''Bo'')) rnd_zero,
       Connection ws_c, Message ws_c (join_msg (JStr ''X'') (JStr ''Cy'')) rnd_zero,
       IntervalFires 0, Close ws_b rnd_zero, Close ws_c rnd_zero, TimeoutFires 0 rnd_zero] of
     Inl e \<Rightarrow> False
   | Inr (st, out) \<Rightarrow>
       map (\<lambda>(code, s). (code, js_keys (participants s), links s)) (sessions st)
         = [(''X'', [ws_a], [(ws_a, ws_a)])]
       \<and> last out = (ws_a, Shuffle ws_a (JStr ''Al'') False))"
  by (simp add: message_defs model_defs ws_facts)



text \<open>
  C6. In a reachable state a session of exactly two participants has no timer and no
  live interval closes over its code, so no firing broadcasts a countdown to it. A
  session of more than two has a live interval. When it fires, every participant
  whose connection is open is sent one \<^verbatim>\<open>shuffle-countdown\<close> of duration 10, nobody
  else is sent anything, and a timeout of 3000 ms for the session is left pending.
  The callback of that timeout is \<^verbatim>\<open>performShuffle\<close> for the session: it returns,
  the links of the session become one cycle through a permutation of the
  participants, and for each link the open connection at its start is sent its
  \<^verbatim>\<open>shuffle\<close>.
\<close>

theorem countdown_only_for_more_than_two:
  assumes "reachable st" "js_get (sessions st) code = Some s"
  shows "(length (js_keys (participants s)) = 2 \<longrightarrow>
            timer s = None \<and> code \<notin> snd ` set (intervals st)
            \<and> (\<forall>h. map_of (intervals st) h \<noteq> Some code))
       \<and> (2 < length (js_keys (participants s)) \<longrightarrow>
            (\<exists>h. timer s = Some h \<and> map_of (intervals st) h = Some code
               \<and> on_interval st h =
                    (st\<lparr>timeouts := timeouts st @ [(countdown_delay_ms, code)]\<rparr>,
                     broadcastToSession st code (ShuffleCountdown countdown_duration))
               \<and> snd (on_interval st h) =
                    map (\<lambda>p. (socket p, ShuffleCountdown 10))
                      (filter (\<lambda>p. readyState (sockets st (socket p)) = OPEN)
                         (js_values (participants s)))
               \<and> timeouts (fst (on_interval st h)) = timeouts st @ [(3000, code)]
               \<and> (\<forall>rnd. on_timeout rnd (fst (on_interval st h)) (length (timeouts st))
                           = performShuffle rnd st code)
               \<and> (\<forall>rnd. (\<forall>k. 0 \<le> rnd k \<and> rnd k < 1) \<longrightarrow>
                     (\<exists>out p lnk.
                        on_timeout rnd (fst (on_interval st h)) (length (timeouts st))
                          = Inr (st\<lparr>sessions := js_set (sessions st) code (s\<lparr>links := lnk\<rparr>)\<rparr>,
                                 out)
                      \<and> mset p = mset (js_keys (participants s))
                      \<and> links_form_cycle lnk p
                      \<and> out = concat (map (\<lambda>(A, B).
                            case js_get (participants s) A of None \<Rightarrow> []
                            | Some pA \<Rightarrow>
                               (case js_get (participants s) B of None \<Rightarrow> []
                                | Some pB \<Rightarrow>
                                    if readyState (sockets st (socket pA)) = OPEN
                                    then [(socket pA, Shuffle B (name pB) (polite_flag A B))]
                                    else [])) lnk)))))"
proof -
  have ok: "timers_ok {} st" using assms(1) by (rule reachable_timers_ok)
  have d: "distinct (map fst (intervals st))" using ok by (simp add: timers_ok_def)
  have iv: "\<And>h c. (h, c) \<in> set (intervals st) \<Longrightarrow>
      (\<exists>s. js_get (sessions st) c = Some s \<and> timer s = Some h)"
    using ok by (auto simp: timers_ok_def)
  have sok: "session_ok (intervals st) {} code s" using ok assms(2) by (simp add: timers_ok_def)
  have dps: "distinct (js_keys (participants s))" using sok by (simp add: session_ok_def)
  have two: "timer s = None \<and> code \<notin> snd ` set (intervals st)
            \<and> (\<forall>h. map_of (intervals st) h \<noteq> Some code)"
    if "length (js_keys (participants s)) = 2"
  proof -
    have t: "timer s = None" using sok that by (simp add: session_ok_def)
    have no: "\<And>h. (h, code) \<notin> set (intervals st)"
      using iv assms(2) t by fastforce
    then have "code \<notin> snd ` set (intervals st)" by force
    moreover have "\<And>h. map_of (intervals st) h \<noteq> Some code"
      using no map_of_SomeD by fastforce
    ultimately show ?thesis using t by blast
  qed
  have more: "\<exists>h. timer s = Some h \<and> map_of (intervals st) h = Some code
               \<and> on_interval st h =
                    (st\<lparr>timeouts := timeouts st @ [(countdown_delay_ms, code)]\<rparr>,
                     broadcastToSession st code (ShuffleCountdown countdown_duration))
               \<and> snd (on_interval st h) =
                    map (\<lambda>p. (socket p, ShuffleCountdown 10))
                      (filter (\<lambda>p. readyState (sockets st (socket p)) = OPEN)
                         (js_values (participants s)))
               \<and> timeouts (fst (on_interval st h)) = timeouts st @ [(3000, code)]
               \<and> (\<forall>rnd. on_timeout rnd (fst (on_interval st h)) (length (timeouts st))
                           = performShuffle rnd st code)
               \<and> (\<forall>rnd. (\<forall>k. 0 \<le> rnd k \<and> rnd k < 1) \<longrightarrow>
                     (\<exists>out p lnk.
                        on_timeout rnd (fst (on_interval st h)) (length (timeouts st))
                          = Inr (st\<lparr>sessions := js_set (sessions st) code (s\<lparr>links := lnk\<rparr>)\<rparr>,
                                 out)
                      \<and> mset p = mset (js_keys (participants s))
                      \<and> links_form_cycle lnk p
                      \<and> out = concat (map (\<lambda>(A, B).
                            case js_get (participants s) A of None \<Rightarrow> []
                            | Some pA \<Rightarrow>
                               (case js_get (participants s) B of None \<Rightarrow> []
                                | Some pB \<Rightarrow>
                                    if readyState (sockets st (socket pA)) = OPEN
                                    then [(socket pA, Shuffle B (name pB) (polite_flag A B))]
                                    else [])) lnk)))"
    if "2 < length (js_keys (participants s))"
  proof -
    from sok that obtain h where h: "timer s = Some h" "(h, code) \<in> set (intervals st)"
      by (auto simp: session_ok_def)
    have m: "map_of (intervals st) h = Some code"
      using d h(2) by (rule map_of_is_SomeI)
    then have oi: "on_interval st h =
                    (st\<lparr>timeouts := timeouts st @ [(countdown_delay_ms, code)]\<rparr>,
                     broadcastToSession st code (ShuffleCountdown countdown_duration))"
      by (simp add: on_interval_def)
    have sent: "snd (on_interval st h) =
                    map (\<lambda>p. (socket p, ShuffleCountdown 10))
                      (filter (\<lambda>p. readyState (sockets st (socket p)) = OPEN)
                         (js_values (participants s)))"
      using broadcast_present [OF assms(2)] by (simp add: oi countdown_duration_def)
    have pend: "timeouts (fst (on_interval st h)) = timeouts st @ [(3000, code)]"
      by (simp add: oi countdown_delay_ms_def)
    have fire: "on_timeout rnd (fst (on_interval st h)) (length (timeouts st))
            = performShuffle rnd st code" for rnd
      by (simp add: oi on_timeout_def)
    have shuffled: "\<exists>out p lnk.
                        on_timeout rnd (fst (on_interval st h)) (length (timeouts st))
                          = Inr (st\<lparr>sessions := js_set (sessions st) code (s\<lparr>links := lnk\<rparr>)\<rparr>,
                                 out)
                      \<and> mset p = mset (js_keys (participants s))
                      \<and> links_form_cycle lnk p
                      \<and> out = concat (map (\<lambda>(A, B).
                            case js_get (participants s) A of None \<Rightarrow> []
                            | Some pA \<Rightarrow>
                               (case js_get (participants s) B of None \<Rightarrow> []
                                | Some pB \<Rightarrow>
                                    if readyState (sockets st (socket pA)) = OPEN
                                    then [(socket pA, Shuffle B (name pB) (polite_flag A B))]
                                    else [])) lnk)"
      if r: "\<forall>k. 0 \<le> rnd k \<and> rnd k < 1" for rnd
    proof -
      from performShuffle_result [OF assms(2) dps r] obtain out p lnk where
        res: "performShuffle rnd st code
             = Inr (st\<lparr>sessions := js_set (sessions st) code (s\<lparr>links := lnk\<rparr>)\<rparr>, out)"
        and n: "notify (sockets st) (participants s) lnk = Inr out"
        and mp: "mset p = mset (js_keys (participants s))"
        and cyc: "links_form_cycle lnk p" by blast
      from notify_exact [OF n] res mp cyc fire [of rnd] show ?thesis by force
    qed
    from h(1) m oi sent pend fire shuffled show ?thesis by blast
  qed
  show ?thesis using two more by blast
qed

text \<open>After two joins, and after three.\<close>

theorem countdown_only_for_more_than_two_witness:
  "(\<exists>st out s. run init_state two_join = Inr (st, out)
      \<and> js_get (sessions st) ''X'' = Some s \<and> length (js_keys (participants s)) = 2
      \<and> timer s = None \<and> ''X'' \<notin> snd ` set (intervals st)
      \<and> (\<forall>h. map_of (intervals st) h \<noteq> Some ''X''))
   \<and> (\<exists>st out s h. run init_state three_join = Inr (st, out)
      \<and> js_get (sessions st) ''X'' = Some s \<and> length (js_keys (participants s)) = 3
      \<and> timer s = Some h \<and> map_of (intervals st) h = Some ''X''
      \<and> snd (on_interval st h) =
           [(ws_a, ShuffleCountdown 10), (ws_b, ShuffleCountdown 10), (ws_c, ShuffleCountdown 10)]
      \<and> timeouts (fst (on_interval st h)) = timeouts st @ [(3000, ''X'')]
      \<and> (\<exists>out p lnk.
            on_timeout rnd_half (fst (on_interval st h)) (length (timeouts st))
              = Inr (st\<lparr>sessions := js_set (sessions st) ''X'' (s\<lparr>links := lnk\<rparr>)\<rparr>, out)
          \<and> mset p = mset (js_keys (participants s))
          \<and> links_form_cycle lnk p))"
proof
  from two_join_runs obtain st out s where r: "run init_state two_join = Inr (st, out)"
    and s: "js_get (sessions st) ''X'' = Some s" "js_keys (participants s) = [ws_a, ws_b]"
    by blast
  have "reachable st" unfolding reachable_def using r by blast
  from countdown_only_for_more_than_two [OF this s(1)] s(2)
  have "timer s = None \<and> ''X'' \<notin> snd ` set (intervals st)
      \<and> (\<forall>h. map_of (intervals st) h \<noteq> Some ''X'')" by simp
  moreover have "length (js_keys (participants s)) = 2" using s(2) by simp
  ultimately show "\<exists>st out s. run init_state two_join = Inr (st, out)
      \<and> js_get (sessions st) ''X'' = Some s \<and> length (js_keys (participants s)) = 2
      \<and> timer s = None \<and> ''X'' \<notin> snd ` set (intervals st)
      \<and> (\<forall>h. map_of (intervals st) h \<noteq> Some ''X'')"
    using r s(1) by blast
next
  from three_join_state obtain st out s where r: "run init_state three_join = Inr (st, out)"
    and s: "js_get (sessions st) ''X'' = Some s" "participants s = participants session_X3"
    and o: "readyState (sockets st ws_a) = OPEN" "readyState (sockets st ws_b) = OPEN"
           "readyState (sockets st ws_c) = OPEN"
    by blast
  have len: "length (js_keys (participants s)) = 3" using s(2) by (simp add: session_X3_def)
  have "reachable st" unfolding reachable_def using r by blast
  from countdown_only_for_more_than_two [OF this s(1)] len
  obtain h where h: "timer s = Some h" "map_of (intervals st) h = Some ''X''"
      "snd (on_interval st h) =
                    map (\<lambda>p. (socket p, ShuffleCountdown 10))
                      (filter (\<lambda>p. readyState (sockets st (socket p)) = OPEN)
                         (js_values (participants s)))"
      "timeouts (fst (on_interval st h)) = timeouts st @ [(3000, ''X'')]"
      "\<forall>rnd. (\<forall>k. 0 \<le> rnd k \<and> rnd k < 1) \<longrightarrow>
                     (\<exists>out p lnk.
                        on_timeout rnd (fst (on_interval st h)) (length (timeouts st))
                          = Inr (st\<lparr>sessions := js_set (sessions st) ''X'' (s\<lparr>links := lnk\<rparr>)\<rparr>,
                                 out)
                      \<and> mset p = mset (js_keys (participants s))
                      \<and> links_form_cycle lnk p
                      \<and> out = concat (map (\<lambda>(A, B).
                            case js_get (participants s) A of None \<Rightarrow> []
                            | Some pA \<Rightarrow>
                               (case js_get (participants s) B of None \<Rightarrow> []
                                | Some pB \<Rightarrow>
                                    if readyState (sockets st (socket pA)) = OPEN
                                    then [(socket pA, Shuffle B (name pB) (polite_flag A B))]
                                    else [])) lnk))"
    by auto
  have sent: "snd (on_interval st h) =
           [(ws_a, ShuffleCountdown 10), (ws_b, ShuffleCountdown 10), (ws_c, ShuffleCountdown 10)]"
    using h(3) s(2) o by (simp add: session_X3_def js_values_def)
  from h(5) rnd_half_range obtain out' p lnk where
    "on_timeout rnd_half (fst (on_interval st h)) (length (timeouts st))
              = Inr (st\<lparr>sessions := js_set (sessions st) ''X'' (s\<lparr>links := lnk\<rparr>)\<rparr>, out')"
    "mset p = mset (js_keys (participants s))" "links_form_cycle lnk p"
    by blast
  with r s(1) len h(1,2,4) sent
  show "\<exists>st out s h. run init_state three_join = Inr (st, out)
      \<and> js_get (sessions st) ''X'' = Some s \<and> length (js_keys (participants s)) = 3
      \<and> timer s = Some h \<and> map_of (intervals st) h = Some ''X''
      \<and> snd (on_interval st h) =
           [(ws_a, ShuffleCountdown 10), (ws_b, ShuffleCountdown 10), (ws_c, ShuffleCountdown 10)]
      \<and> timeouts (fst (on_interval st h)) = timeouts st @ [(3000, ''X'')]
      \<and> (\<exists>out p lnk.
            on_timeout rnd_half (fst (on_interval st h)) (length (timeouts st))
              = Inr (st\<lparr>sessions := js_set (sessions st) ''X'' (s\<lparr>links := lnk\<rparr>)\<rparr>, out)
          \<and> mset p = mset (js_keys (participants s))
          \<and> links_form_cycle lnk p)"
    by blast
qed

text \<open>
  C7, as stated, fails. The timeout the interval leaves pending is never cleared.
  Three join, the interval fires, all three leave within the delay: the session is
  gone and the timeout still pending. A newcomer joins under the same code, the
  timeout fires, and its callback finds the new session: the newcomer is sent a
  \<^verbatim>\<open>shuffle\<close>, and the links of the session change.
\<close>

theorem stale_timeout_fires_on_recreated_session:
  "(case run init_state (before_last_leave @ [Close ws_a rnd_zero]) of
      Inl e \<Rightarrow> False
    | Inr (st, out) \<Rightarrow>
        sessions st = [] \<and> intervals st = [] \<and> timeouts st = [(3000, ''X'')]
        \<and> (case run st [Connection ws_d,
                        Message ws_d (join_msg (JStr ''X'') (JStr ''Di'')) rnd_zero,
                        TimeoutFires 0 rnd_zero] of
             Inl e \<Rightarrow> False
           | Inr (st', out') \<Rightarrow>
               out' = [(ws_d, ParticipantListUpdate [JStr ''Di'']),
                       (ws_d, Shuffle ws_d (JStr ''Di'') False)]
               \<and> map (\<lambda>(code, s). (code, links s)) (sessions st') = [(''X'', [(ws_d, ws_d)])]))"
  by (simp add: before_last_leave_def three_join_def two_join_def message_defs model_defs
      ws_facts ws_d_facts)

text \<open>
  C7, amended. In a state whose timers are consistent, as they are in every reachable
  state, the connection that closes is the only participant of the session the close
  handler reaches, which is the first session, in the order of enumeration, that
  lists it. Then the handler returns without sending, the session's timer is cleared
  and the session is gone from \<^verbatim>\<open>sessions\<close>; no live interval closes over its code
  any more. In the state after the close, and in any state in which no session of
  that code exists, a broadcast and a \<^verbatim>\<open>performShuffle\<close> for the code send nothing
  and change nothing, so that a timeout firing for the code there sends nothing and
  leaves the state as it was but for the timeout itself.
\<close>

theorem last_leave_removes_session_and_timer:
  assumes "timers_ok X st"
    and "find (\<lambda>(code, s). js_get (participants s) wsid \<noteq> None) (sessions st)
           = Some (code, session)"
    and "js_keys (participants session) = [wsid]"
  shows "\<exists>st'. on_close rnd st wsid = Inr (st', [])
       \<and> js_get (sessions st') code = None
       \<and> intervals st' = clearInterval (timer session) (intervals st)
       \<and> timeouts st' = timeouts st
       \<and> (\<forall>h. timer session = Some h \<longrightarrow> h \<notin> fst ` set (intervals st'))
       \<and> code \<notin> snd ` set (intervals st')
       \<and> (\<forall>h. map_of (intervals st') h \<noteq> Some code)
       \<and> (\<forall>rnd'. performShuffle rnd' st' code = Inr (st', []))
       \<and> (\<forall>m. broadcastToSession st' code m = [])
       \<and> (\<forall>rnd' i. i < length (timeouts st') \<and> snd (timeouts st' ! i) = code \<longrightarrow>
             on_timeout rnd' st' i
               = Inr (st'\<lparr>timeouts := take i (timeouts st') @ drop (Suc i) (timeouts st')\<rparr>, []))
       \<and> (\<forall>s. js_get (sessions s) code = None \<longrightarrow>
             (\<forall>rnd'. performShuffle rnd' s code = Inr (s, []))
           \<and> (\<forall>m. broadcastToSession s code m = [])
           \<and> (\<forall>rnd' i. i < length (timeouts s) \<and> snd (timeouts s ! i) = code \<longrightarrow>
                 on_timeout rnd' s i
                   = Inr (s\<lparr>timeouts := take i (timeouts s) @ drop (Suc i) (timeouts s)\<rparr>, [])))"
proof -
  have dk: "distinct (js_keys (sessions st))" using assms(1) by (simp add: timers_ok_def)
  from find_session [OF assms(2) dk]
  have get: "js_get (sessions st) code = Some session" by simp
  have del: "js_delete (participants session) wsid = []"
    using assms(3) by (cases "participants session") (auto simp: js_delete_def js_keys_def)
  define st1 where "st1 = st\<lparr>sessions := js_set (sessions st) code (session\<lparr>participants := []\<rparr>)\<rparr>"
  define st' where "st' = st1\<lparr>intervals := clearInterval (timer session) (intervals st1),
                 sessions := js_delete (sessions st1) code\<rparr>"
  have run: "on_close rnd st wsid = Inr (st', [])"
    using assms(2) del by (simp add: on_close_def Let_def st'_def st1_def)
  have ok1: "timers_ok (insert code X) st1"
    using timers_ok_participants [OF assms(1) get, of "[]"] by (simp add: st1_def)
  have get1: "js_get (sessions st1) code = Some (session\<lparr>participants := []\<rparr>)"
    by (simp add: st1_def js_get_set)
  have ok': "timers_ok (insert code X - {code}) st'"
    using timers_ok_delete [OF ok1 get1] by (simp add: st'_def)
  have gone: "js_get (sessions st') code = None"
    by (simp add: st'_def js_get_delete)
  have ivs: "intervals st' = clearInterval (timer session) (intervals st)"
    by (simp add: st'_def st1_def)
  have tos: "timeouts st' = timeouts st"
    by (simp add: st'_def st1_def)
  have cancelled: "\<forall>h. timer session = Some h \<longrightarrow> h \<notin> fst ` set (intervals st')"
    by (auto simp: ivs clearInterval_def)
  have no: "\<And>h. (h, code) \<notin> set (intervals st')"
    using ok' gone by (fastforce simp: timers_ok_def)
  then have nocode: "code \<notin> snd ` set (intervals st')" by force
  have nomap: "\<forall>h. map_of (intervals st') h \<noteq> Some code"
    using no map_of_SomeD by fastforce
  have shuffle: "\<forall>rnd'. performShuffle rnd' st' code = Inr (st', [])"
    using gone by (simp add: performShuffle_absent)
  have bc: "\<forall>m. broadcastToSession st' code m = []"
    using gone by (simp add: broadcast_absent)
  have timeout: "\<forall>rnd' i. i < length (timeouts st') \<and> snd (timeouts st' ! i) = code \<longrightarrow>
             on_timeout rnd' st' i
               = Inr (st'\<lparr>timeouts := take i (timeouts st') @ drop (Suc i) (timeouts st')\<rparr>, [])"
    using gone by (simp add: on_timeout_def performShuffle_absent)
  have later: "\<forall>s. js_get (sessions s) code = None \<longrightarrow>
             (\<forall>rnd'. performShuffle rnd' s code = Inr (s, []))
           \<and> (\<forall>m. broadcastToSession s code m = [])
           \<and> (\<forall>rnd' i. i < length (timeouts s) \<and> snd (timeouts s ! i) = code \<longrightarrow>
                 on_timeout rnd' s i
                   = Inr (s\<lparr>timeouts := take i (timeouts s) @ drop (Suc i) (timeouts s)\<rparr>, []))"
    by (simp add: on_timeout_def performShuffle_absent broadcast_absent)
  show ?thesis
    using run gone ivs tos cancelled nocode nomap shuffle bc timeout later by blast
qed

text \<open>
  The run in which the last of three leaves while a timeout is pending; and the
  session of one that still had a timer.
\<close>

theorem last_leave_removes_session_and_timer_witness:
  "(\<exists>st out st'. run init_state before_last_leave = Inr (st, out)
      \<and> timeouts st = [(countdown_delay_ms, ''X'')]
      \<and> on_close rnd_zero st ws_a = Inr (st', [])
      \<and> js_get (sessions st') ''X'' = None
      \<and> ''X'' \<notin> snd ` set (intervals st')
      \<and> performShuffle rnd_zero st' ''X'' = Inr (st', [])
      \<and> on_timeout rnd_zero st' 0 = Inr (st'\<lparr>timeouts := []\<rparr>, []))
   \<and> (\<exists>st'. on_close rnd_zero state_X1_timer ws_a = Inr (st', [])
      \<and> js_get (sessions st') ''X'' = None
      \<and> intervals st' = []
      \<and> on_interval st' 0 = (st', []))"
proof
  from before_last_leave_runs obtain st out session where
    r: "run init_state before_last_leave = Inr (st, out)"
    and f: "find (\<lambda>(code, s). js_get (participants s) ws_a \<noteq> None) (sessions st)
          = Some (''X'', session)"
    and k: "js_keys (participants session) = [ws_a]"
    and t: "timeouts st = [(countdown_delay_ms, ''X'')]" by blast
  have "reachable st" unfolding reachable_def using r by blast
  then have ok: "timers_ok {} st" by (rule reachable_timers_ok)
  from last_leave_removes_session_and_timer [OF ok f k, of rnd_zero] obtain st' where
    c: "on_close rnd_zero st ws_a = Inr (st', [])"
       "js_get (sessions st') ''X'' = None"
       "timeouts st' = timeouts st"
       "''X'' \<notin> snd ` set (intervals st')"
       "\<forall>rnd'. performShuffle rnd' st' ''X'' = Inr (st', [])"
       "\<forall>rnd' i. i < length (timeouts st') \<and> snd (timeouts st' ! i) = ''X'' \<longrightarrow>
             on_timeout rnd' st' i
               = Inr (st'\<lparr>timeouts := take i (timeouts st') @ drop (Suc i) (timeouts st')\<rparr>, [])"
    by blast
  have "on_timeout rnd_zero st' 0 = Inr (st'\<lparr>timeouts := []\<rparr>, [])"
    using c(6) [rule_format, of 0 rnd_zero] c(3) t by simp
  with r t c show "\<exists>st out st'. run init_state before_last_leave = Inr (st, out)
      \<and> timeouts st = [(countdown_delay_ms, ''X'')]
      \<and> on_close rnd_zero st ws_a = Inr (st', [])
      \<and> js_get (sessions st') ''X'' = None
      \<and> ''X'' \<notin> snd ` set (intervals st')
      \<and> performShuffle rnd_zero st' ''X'' = Inr (st', [])
      \<and> on_timeout rnd_zero st' 0 = Inr (st'\<lparr>timeouts := []\<rparr>, [])"
    by blast
next
  have f: "find (\<lambda>(code, s). js_get (participants s) ws_a \<noteq> None) (sessions state_X1_timer)
          = Some (''X'', \<lparr>participants = [(ws_a, \<lparr>name = JStr ''Al'', socket = ws_a\<rparr>)],
                           links = [], timer = Some 0\<rparr>)"
    by (simp add: state_X1_timer_def)
  from last_leave_removes_session_and_timer [OF state_X1_timer_ok f, of rnd_zero] obtain st' where
    c: "on_close rnd_zero state_X1_timer ws_a = Inr (st', [])"
       "js_get (sessions st') ''X'' = None"
       "intervals st' = clearInterval (Some 0) (intervals state_X1_timer)"
    by auto
  have i: "intervals st' = []" using c(3) by (simp add: clearInterval_def state_X1_timer_def)
  then have "on_interval st' 0 = (st', [])" by (simp add: on_interval_def)
  with c i show "\<exists>st'. on_close rnd_zero state_X1_timer ws_a = Inr (st', [])
      \<and> js_get (sessions st') ''X'' = None
      \<and> intervals st' = []
      \<and> on_interval st' 0 = (st', [])" by blast
qed

text \<open>
  C8. A connection that joins a second session stays a participant of the first, with
  \<^verbatim>\<open>ws.sessionCode\<close> naming the second only. When it closes, the loop leaves at the
  first session it finds, and the other keeps the dead participant.
\<close>

theorem second_join_leaves_connection_in_two_sessions:
  "(case run init_state
      [Connection ws_a, Message ws_a (join_msg (JStr ''A'') (JStr ''Al'')) rnd_zero,
       Message ws_a (join_msg (JStr ''B'') (JStr ''Al'')) rnd_zero] of
     Inl e \<Rightarrow> False
   | Inr (st, out) \<Rightarrow>
       map (\<lambda>(code, s). (code, js_keys (participants s))) (sessions st)
         = [(''A'', [ws_a]), (''B'', [ws_a])]
       \<and> sessionCode (sockets st ws_a) = JStr ''B''
       \<and> (case on_close rnd_zero (set_readyState st ws_a CLOSED) ws_a of
            Inl e \<Rightarrow> False
          | Inr (st', out') \<Rightarrow>
              map (\<lambda>(code, s). (code, js_keys (participants s))) (sessions st')
                = [(''B'', [ws_a])]))"
  by (simp add: message_defs model_defs ws_facts)

text \<open>
  C9. In a reachable state at most one live interval closes over any session code,
  and it is the one \<^verbatim>\<open>session.timer\<close> holds. When \<^verbatim>\<open>initiateShuffleCycle\<close> runs for a
  session that has a timer, that timer is no longer live afterwards, and again at
  most one is.
\<close>

theorem one_live_timer_per_session:
  assumes "reachable st"
  shows "length (filter (\<lambda>(h, c). c = code) (intervals st)) \<le> 1
       \<and> (\<forall>h. (h, code) \<in> set (intervals st) \<longrightarrow>
             (\<exists>s. js_get (sessions st) code = Some s \<and> timer s = Some h))
       \<and> (\<forall>rnd s h st' out.
             js_get (sessions st) code = Some s \<and> timer s = Some h
             \<and> initiateShuffleCycle rnd st code = Inr (st', out) \<longrightarrow>
             h \<notin> fst ` set (intervals st')
             \<and> length (filter (\<lambda>(h, c). c = code) (intervals st')) \<le> 1)"
proof -
  have ok: "timers_ok {} st" using assms by (rule reachable_timers_ok)
  have iv: "\<And>h c. (h, c) \<in> set (intervals st) \<Longrightarrow>
      h < next_timer st \<and> (\<exists>s. js_get (sessions st) c = Some s \<and> timer s = Some h)"
    using ok by (auto simp: timers_ok_def)
  have one: "length (filter (\<lambda>(h, c). c = code) (intervals st)) \<le> 1"
    using ok by (rule at_most_one_interval)
  have re: "h \<notin> fst ` set (intervals st')
             \<and> length (filter (\<lambda>(h, c). c = code) (intervals st')) \<le> 1"
    if s: "js_get (sessions st) code = Some s" and h: "timer s = Some h"
      and run: "initiateShuffleCycle rnd st code = Inr (st', out)"
    for rnd s h st' out
  proof -
    have "timers_ok {code} st" using ok by (rule timers_ok_exempt) simp
    then have "timers_ok ({} - {code}) st'"
      using run initiateShuffleCycle_timers_ok [of code "{}" st rnd st' out] by simp
    then have "length (filter (\<lambda>(h, c). c = code) (intervals st')) \<le> 1"
      by (rule at_most_one_interval)
    moreover have "intervals st' = clearInterval (Some h) (intervals st)
           @ (if 2 < length (js_keys (participants s)) then [(next_timer st, code)] else [])"
      using initiateShuffleCycle_intervals [OF s run] h by simp
    moreover have "h \<noteq> next_timer st"
    proof -
      have "(h, code) \<in> set (intervals st)"
        using ok s h by (auto simp: timers_ok_def session_ok_def)
      from iv [OF this] show ?thesis by simp
    qed
    ultimately show ?thesis by (auto simp: clearInterval_def)
  qed
  show ?thesis using one iv re by blast
qed

text \<open>After three joins the one interval is the session's timer.\<close>

theorem one_live_timer_per_session_witness:
  "\<exists>st out. run init_state three_join = Inr (st, out)
     \<and> intervals st = [(0, ''X'')]
     \<and> length (filter (\<lambda>(h, c). c = ''X'') (intervals st)) \<le> 1
     \<and> (\<exists>s. js_get (sessions st) ''X'' = Some s \<and> timer s = Some 0)"
proof -
  from three_join_runs obtain st out where r: "run init_state three_join = Inr (st, out)"
    and iv: "intervals st = [(0, ''X'')]" by blast
  have "reachable st" unfolding reachable_def using r by blast
  from one_live_timer_per_session [OF this, of "''X''"] iv
  have "length (filter (\<lambda>(h, c). c = ''X'') (intervals st)) \<le> 1"
    and "\<exists>s. js_get (sessions st) ''X'' = Some s \<and> timer s = Some 0" by simp_all
  with r iv show ?thesis by blast
qed

text \<open>
  C10. A connection that never joined has \<^verbatim>\<open>ws.sessionCode\<close> unset, and
  \<^verbatim>\<open>sessions[undefined]\<close> reads the property named \<^verbatim>\<open>undefined\<close>: when a session of
  that code exists, the signal of the outsider is forwarded into it.
\<close>

theorem signal_from_unjoined_connection_reaches_session_undefined:
  "(case run init_state
      [Connection ws_a, Message ws_a (join_msg (JStr ''undefined'') (JStr ''Al'')) rnd_zero,
       Connection ws_b] of
     Inl e \<Rightarrow> False
   | Inr (st, out) \<Rightarrow>
       sessionCode (sockets st ws_b) = JUndefined
       \<and> on_message rnd_zero st ws_b (signal_msg (JStr ws_a) (JStr ''offer''))
           = Inr (st, [(ws_a, WebrtcSignal ws_b (JStr ''offer''))]))"
  by (simp add: message_defs model_defs ws_facts)

end
